theory Spec2Isabelle
  imports Complex_Main
begin

section \<open>Schema composition: \<open>compose\<close> of apostrophe-schemas\<close>

text \<open>
  A schema is a JavaScript array of references to field objects, and \<open>compose\<close> writes to
  those objects (\<open>field.required = true\<close>, \<open>f.group = g\<close>, \<open>field.partial = ...\<close>).
  The model keeps the objects in an explicit store: an address is a natural number, the
  store maps every address to the field object living there, and a schema is a list of
  addresses. Two entries of a list holding the same address are the same object.
\<close>

type_synonym addr = nat

text \<open>
  A field's \<open>template\<close> is a template name or a function; a function is represented by a
  label. \<open>self.partialer(name)\<close> is represented by the constructor \<open>Partialer\<close>.
\<close>

datatype template = TemplateName string | TemplateFunction nat

datatype partial = Partialer string | PartialFunction nat

text \<open>
  \<open>choice.showFields\<close> of a select field: absent (or any falsy value), an array of field
  names, or some other truthy value.
\<close>

datatype show_fields = NoShowFields | ShowFieldsArray "string list" | ShowFieldsOther

text \<open>
  The group descriptor attached to a field is the clone of a group record with its
  \<open>fields\<close> property deleted.
\<close>

record descriptor =
  dname :: string
  dlabel :: string
  dlast :: bool

record group =
  gname :: string
  glabel :: string
  gfields :: "string list"
  glast :: bool

record field =
  name :: string
  ftype :: string
  required :: bool
  fgroup :: "descriptor option"
  template :: "template option"
  partial :: "partial option"
  choices :: "show_fields list"

type_synonym heap = "addr \<Rightarrow> field"

text \<open>
  \<open>options.arrangeFields\<close> is a list of field names or a list of group records
  (the code looks at the type of the first element only).
\<close>

datatype arrange = ArrangeNames "string list" | ArrangeGroups "group list"

record compose_options =
  addFields :: "addr list option"
  removeFields :: "string list option"
  requireFields :: "string list option"
  alterFields :: "(heap \<Rightarrow> addr list \<Rightarrow> heap \<times> addr list) option"
  arrangeFields :: "arrange option"

text \<open>\<open>self.options.defaultGroup\<close>, the module-level override of the default group.\<close>

record default_group =
  dg_name :: "string option"
  dg_label :: "string option"

datatype compose_error = ShowFieldsNotArray

text \<open>\<open>s || d\<close> for an optional string: the empty string is falsy.\<close>

fun or_else :: "string option \<Rightarrow> string \<Rightarrow> string" where
  "or_else None d = d"
| "or_else (Some s) d = (if s = [] then d else s)"

text \<open>
  \<open>findIndex\<close> followed by \<open>splice(i, 1)\<close>, and the \<open>for\<close> loop that splices and breaks:
  the first element satisfying the test is removed, if there is one.
\<close>

fun remove_first :: "('a \<Rightarrow> bool) \<Rightarrow> 'a list \<Rightarrow> 'a list" where
  "remove_first P [] = []"
| "remove_first P (x # xs) = (if P x then xs else x # remove_first P xs)"

text \<open>\<open>array.splice(i, 0, x)\<close>; an index past the end appends.\<close>

definition splice_in :: "nat \<Rightarrow> 'a \<Rightarrow> 'a list \<Rightarrow> 'a list" where
  "splice_in i x xs = take i xs @ [x] @ drop i xs"

text \<open>First index of an element satisfying the test (\<open>_.findIndex\<close>; \<open>None\<close> is \<open>-1\<close>).\<close>

fun findIndex :: "('a \<Rightarrow> bool) \<Rightarrow> 'a list \<Rightarrow> nat option" where
  "findIndex P [] = None"
| "findIndex P (x # xs) =
     (if P x then Some 0 else map_option Suc (findIndex P xs))"

subsection \<open>Steps 1 to 4: the working field list\<close>

definition add_field :: "heap \<Rightarrow> addr list \<Rightarrow> addr \<Rightarrow> addr list" where
  "add_field h schema fld =
     remove_first (\<lambda>a. name (h a) = name (h fld)) schema @ [fld]"

definition apply_addFields :: "heap \<Rightarrow> addr list option \<Rightarrow> addr list" where
  "apply_addFields h adds =
     (case adds of None \<Rightarrow> [] | Some fs \<Rightarrow> foldl (add_field h) [] fs)"

definition apply_removeFields :: "heap \<Rightarrow> string list option \<Rightarrow> addr list \<Rightarrow> addr list" where
  "apply_removeFields h rm schema =
     (case rm of None \<Rightarrow> schema
      | Some names \<Rightarrow> filter (\<lambda>a. name (h a) \<notin> set names) schema)"

definition require_field :: "addr list \<Rightarrow> heap \<Rightarrow> string \<Rightarrow> heap" where
  "require_field schema h n =
     (case find (\<lambda>a. name (h a) = n) schema of
        None \<Rightarrow> h
      | Some a \<Rightarrow> h(a := (h a)\<lparr>required := True\<rparr>))"

definition apply_requireFields :: "string list option \<Rightarrow> addr list \<Rightarrow> heap \<Rightarrow> heap" where
  "apply_requireFields rq schema h =
     (case rq of None \<Rightarrow> h | Some names \<Rightarrow> foldl (require_field schema) h names)"

definition apply_alterFields ::
  "(heap \<Rightarrow> addr list \<Rightarrow> heap \<times> addr list) option \<Rightarrow> heap \<Rightarrow> addr list \<Rightarrow> heap \<times> addr list" where
  "apply_alterFields alter h schema =
     (case alter of None \<Rightarrow> (h, schema) | Some f \<Rightarrow> f h schema)"

definition working_fields :: "compose_options \<Rightarrow> heap \<Rightarrow> heap \<times> addr list" where
  "working_fields opts h =
     (let schema = apply_addFields h (addFields opts);
          schema = apply_removeFields h (removeFields opts) schema;
          h = apply_requireFields (requireFields opts) schema h
      in apply_alterFields (alterFields opts) h schema)"

subsection \<open>Steps 5 and 6: the groups\<close>

definition default_group_of :: "default_group option \<Rightarrow> heap \<Rightarrow> addr list \<Rightarrow> group" where
  "default_group_of dg h schema =
     \<lparr> gname = or_else (case dg of None \<Rightarrow> None | Some d \<Rightarrow> dg_name d) ''default'',
       glabel = or_else (case dg of None \<Rightarrow> None | Some d \<Rightarrow> dg_label d) ''Info'',
       gfields = map (\<lambda>a. name (h a)) schema,
       glast = False \<rparr>"

definition initial_groups :: "group \<Rightarrow> arrange option \<Rightarrow> group list" where
  "initial_groups dflt arr =
     (case arr of
        None \<Rightarrow> [dflt]
      | Some (ArrangeNames ns) \<Rightarrow> (if ns = [] then [dflt] else [dflt\<lparr>gfields := ns\<rparr>])
      | Some (ArrangeGroups gs) \<Rightarrow> (if gs = [] then [dflt] else dflt\<lparr>gfields := []\<rparr> # gs))"

text \<open>
  One round of the loop that builds \<open>newGroups\<close>; \<open>n\<close> is \<open>groups.length\<close> of the list
  being traversed.
\<close>

definition regroup :: "nat \<Rightarrow> group list \<Rightarrow> group \<Rightarrow> group list" where
  "regroup n newGroups g =
     (let newGroups = remove_first (\<lambda>g'. gname g' = gname g) newGroups;
          i = (case findIndex glast newGroups of None \<Rightarrow> n | Some i \<Rightarrow> i)
      in splice_in i g newGroups)"

definition dedupe_groups :: "group list \<Rightarrow> group list" where
  "dedupe_groups groups = foldl (regroup (length groups)) [] groups"

subsection \<open>Step 7: group assignment\<close>

definition strip :: "group \<Rightarrow> descriptor" where
  "strip g = \<lparr> dname = gname g, dlabel = glabel g, dlast = glast g \<rparr>"

text \<open>The state of the assignment loop: the store, \<open>schema\<close> and \<open>newSchema\<close>.\<close>

type_synonym assign_state = "heap \<times> addr list \<times> addr list"

definition assign_field :: "group \<Rightarrow> assign_state \<Rightarrow> string \<Rightarrow> assign_state" where
  "assign_field g st fname =
     (case st of (h, schema, newSchema) \<Rightarrow>
        (case (case find (\<lambda>a. name (h a) = fname) schema of
                 Some f \<Rightarrow> Some f
               | None \<Rightarrow> find (\<lambda>a. name (h a) = fname) newSchema) of
           None \<Rightarrow> st
         | Some f \<Rightarrow>
             (let h = h(f := (h f)\<lparr>fgroup := Some (strip g)\<rparr>);
                  newSchema = remove_first (\<lambda>a. name (h a) = fname) newSchema @ [f];
                  schema = remove_first (\<lambda>a. name (h a) = fname) schema
              in (h, schema, newSchema))))"

definition assign_group :: "assign_state \<Rightarrow> group \<Rightarrow> assign_state" where
  "assign_group st g = foldl (assign_field g) st (gfields g)"

definition assign_leftover :: "descriptor \<Rightarrow> heap \<Rightarrow> addr list \<Rightarrow> heap" where
  "assign_leftover d h schema = foldl (\<lambda>h a. h(a := (h a)\<lparr>fgroup := Some d\<rparr>)) h schema"

text \<open>
  The field list after group assignment (\<open>newSchema.concat(schema)\<close>): this is what the
  ordering pass sees. The list of groups is never empty, so \<open>groups[0]\<close> exists.
\<close>

definition grouped_fields :: "group list \<Rightarrow> heap \<Rightarrow> addr list \<Rightarrow> heap \<times> addr list" where
  "grouped_fields groups h schema =
     (case foldl assign_group (h, schema, []) groups of
        (h, schema, newSchema) \<Rightarrow>
          (assign_leftover (strip (hd groups)) h schema, newSchema @ schema))"

subsection \<open>Step 8: one contiguous run per group\<close>

text \<open>
  \<open>groupIndexes\<close> maps a group name to the index just after the last field of that group
  placed so far. A field whose group name is falsy (the empty string) is not copied.
\<close>

definition group_name :: "heap \<Rightarrow> addr \<Rightarrow> string option" where
  "group_name h a = map_option dname (fgroup (h a))"

definition stabilize_step ::
  "heap \<Rightarrow> addr list \<times> (string \<rightharpoonup> nat) \<Rightarrow> addr \<Rightarrow> addr list \<times> (string \<rightharpoonup> nat)" where
  "stabilize_step h st a =
     (case st of (newSchema, groupIndexes) \<Rightarrow>
        (case group_name h a of
           None \<Rightarrow> st
         | Some n \<Rightarrow>
             if n = [] then st
             else (case groupIndexes n of
                     Some i \<Rightarrow> (splice_in i a newSchema, groupIndexes(n \<mapsto> Suc i))
                   | None \<Rightarrow> (newSchema @ [a], groupIndexes(n \<mapsto> Suc (length newSchema))))))"

definition stabilize :: "heap \<Rightarrow> addr list \<Rightarrow> addr list" where
  "stabilize h schema = fst (foldl (stabilize_step h) ([], Map.empty) schema)"

subsection \<open>Step 9: the group named \<open>default\<close> goes last\<close>

definition default_last :: "heap \<Rightarrow> addr list \<Rightarrow> addr list" where
  "default_last h schema =
     filter (\<lambda>a. group_name h a \<noteq> Some ''default'') schema @
     filter (\<lambda>a. group_name h a = Some ''default'') schema"

subsection \<open>Step 10: templates and select fields\<close>

text \<open>A template is truthy unless it is the empty string.\<close>

fun to_partial :: "template \<Rightarrow> partial option" where
  "to_partial (TemplateName s) = (if s = [] then None else Some (Partialer s))"
| "to_partial (TemplateFunction f) = Some (PartialFunction f)"

definition install_partial :: "field \<Rightarrow> field" where
  "install_partial f =
     (case template f of
        None \<Rightarrow> f
      | Some t \<Rightarrow>
          (case to_partial t of
             None \<Rightarrow> f
           | Some p \<Rightarrow> f\<lparr>template := None, partial := Some p\<rparr>))"

text \<open>
  The check of a select field throws when a truthy \<open>showFields\<close> is not an array. A name
  in \<open>showFields\<close> that is not in the schema only prints a warning, which changes nothing.
\<close>

definition select_ok :: "field \<Rightarrow> bool" where
  "select_ok f = (ftype f = ''select'' \<longrightarrow> ShowFieldsOther \<notin> set (choices f))"

fun finish_fields :: "heap \<Rightarrow> addr list \<Rightarrow> heap \<times> compose_error option" where
  "finish_fields h [] = (h, None)"
| "finish_fields h (a # as) =
     (let h = h(a := install_partial (h a))
      in if select_ok (h a) then finish_fields h as else (h, Some ShowFieldsNotArray))"

subsection \<open>\<open>compose\<close>\<close>

text \<open>
  \<open>compose\<close> returns the store it leaves behind, and either the error it threw or the
  schema it returned.
\<close>

text \<open>
  The store and the field list after steps 1 to 7: what the ordering pass of step 8 is
  given.
\<close>

definition before_ordering ::
  "default_group option \<Rightarrow> compose_options \<Rightarrow> heap \<Rightarrow> heap \<times> addr list" where
  "before_ordering dg opts h =
     (case working_fields opts h of (h, schema) \<Rightarrow>
        (let groups = dedupe_groups
               (initial_groups (default_group_of dg h schema) (arrangeFields opts))
         in grouped_fields groups h schema))"

definition compose ::
  "default_group option \<Rightarrow> compose_options \<Rightarrow> heap \<Rightarrow> heap \<times> (compose_error + addr list)" where
  "compose dg opts h =
     (case before_ordering dg opts h of (h, schema) \<Rightarrow>
        (let schema = default_last h (stabilize h schema)
         in case finish_fields h schema of
              (h, None) \<Rightarrow> (h, Inr schema)
            | (h, Some e) \<Rightarrow> (h, Inl e)))"

text \<open>
  A list of group names is contiguous when each name occupies one run: after the run of
  the first name, that name does not come again, and so on for the rest.
\<close>

fun contiguous :: "'a list \<Rightarrow> bool" where
  "contiguous [] = True"
| "contiguous (x # xs) = (x \<notin> set (dropWhile (\<lambda>y. y = x) xs) \<and> contiguous xs)"

text \<open>The position of the first occurrence of an element in a list.\<close>

fun pos :: "'a list \<Rightarrow> 'a \<Rightarrow> nat" where
  "pos [] x = 0"
| "pos (y # ys) x = (if x = y then 0 else Suc (pos ys x))"

section \<open>JavaScript values\<close>

text \<open>
  Cursor state, criteria, documents and errors are JavaScript values. An object is an
  association list of its own properties in insertion order. \<open>Error\<close> stands for an
  exception object with its message.
\<close>

subsection \<open>Numbers\<close>

text \<open>
  A number is a binary64 floating-point number: \<open>NaN\<close>, an infinity, negative zero, or
  a finite value, kept as the rational it denotes (\<open>Fin 0\<close> is positive zero).
\<close>

datatype jsnum = NaN | Fin rat | NegZero | PosInf | NegInf

text \<open>\<open>pow2 e\<close> is two to the power \<open>e\<close>; \<open>bits n\<close> is the length of \<open>n\<close> in binary.\<close>

definition pow2 :: "int \<Rightarrow> rat" where
  "pow2 e = (if 0 \<le> e then 2 ^ nat e else 1 / 2 ^ nat (- e))"

function bits :: "int \<Rightarrow> int" where
  "bits n = (if n \<le> 0 then 0 else 1 + bits (n div 2))"
  by pat_completeness auto
termination
  by (relation "measure nat") auto

declare bits.simps [simp del]

text \<open>The exponent of a positive rational: \<open>pow2 e \<le> a < pow2 (e + 1)\<close>.\<close>

definition ilog2 :: "rat \<Rightarrow> int" where
  "ilog2 a =
     (case quotient_of a of
        (n, d) \<Rightarrow>
          (let e = bits n - bits d
           in if pow2 e \<le> a then e else e - 1))"

text \<open>Rounding to the nearest integer, a tie going to the even one.\<close>

definition round_even :: "rat \<Rightarrow> int" where
  "round_even x =
     (let f = \<lfloor>x\<rfloor>; r = x - of_int f
      in if r < 1 / 2 then f
         else if 1 / 2 < r then f + 1
         else if even f then f else f + 1)"

definition zero_of :: "bool \<Rightarrow> jsnum" where
  "zero_of sign = (if sign then NegZero else Fin 0)"

definition inf_of :: "bool \<Rightarrow> jsnum" where
  "inf_of sign = (if sign then NegInf else PosInf)"

text \<open>
  The binary64 number nearest to a rational, which is the result of an arithmetic
  operation whose exact result is that rational: 53 significant bits for a normal
  number, multiples of \<open>pow2 (- 1074)\<close> below \<open>pow2 (- 1022)\<close>, an infinity from
  \<open>pow2 1024\<close> on, and a zero of the sign of the exact result when it rounds to zero.
\<close>

definition binary64 :: "rat \<Rightarrow> jsnum" where
  "binary64 x =
     (if x = 0 then Fin 0
      else
        (let a = \<bar>x\<bar>;
             e = max (ilog2 a) (- 1022);
             q = pow2 (e - 52);
             m = round_even (a / q)
         in if 1024 \<le> e \<or> (e = 1023 \<and> m = 2 ^ 53) then inf_of (x < 0)
            else if m = 0 then zero_of (x < 0)
            else Fin (if x < 0 then - (of_int m * q) else of_int m * q)))"

fun negative :: "jsnum \<Rightarrow> bool" where
  "negative (Fin q) = (q < 0)"
| "negative NegZero = True"
| "negative NegInf = True"
| "negative n = False"

fun is_zero :: "jsnum \<Rightarrow> bool" where
  "is_zero (Fin q) = (q = 0)"
| "is_zero NegZero = True"
| "is_zero n = False"

fun is_inf :: "jsnum \<Rightarrow> bool" where
  "is_inf PosInf = True"
| "is_inf NegInf = True"
| "is_inf n = False"

fun num_val :: "jsnum \<Rightarrow> rat" where
  "num_val (Fin q) = q"
| "num_val n = 0"

text \<open>The operators \<open>-x\<close>, \<open>x + y\<close>, \<open>x - y\<close>, \<open>x * y\<close>, \<open>x / y\<close> and \<open>x % y\<close> on numbers.\<close>

fun num_neg :: "jsnum \<Rightarrow> jsnum" where
  "num_neg NaN = NaN"
| "num_neg (Fin q) = (if q = 0 then NegZero else Fin (- q))"
| "num_neg NegZero = Fin 0"
| "num_neg PosInf = NegInf"
| "num_neg NegInf = PosInf"

definition num_add :: "jsnum \<Rightarrow> jsnum \<Rightarrow> jsnum" where
  "num_add a b =
     (if a = NaN \<or> b = NaN then NaN
      else if is_inf a \<and> is_inf b then (if a = b then a else NaN)
      else if is_inf a then a
      else if is_inf b then b
      else if a = NegZero \<and> b = NegZero then NegZero
      else if num_val a + num_val b = 0 then Fin 0
      else binary64 (num_val a + num_val b))"

definition num_sub :: "jsnum \<Rightarrow> jsnum \<Rightarrow> jsnum" where
  "num_sub a b = num_add a (num_neg b)"

definition num_mul :: "jsnum \<Rightarrow> jsnum \<Rightarrow> jsnum" where
  "num_mul a b =
     (if a = NaN \<or> b = NaN then NaN
      else if (is_inf a \<and> is_zero b) \<or> (is_zero a \<and> is_inf b) then NaN
      else if is_inf a \<or> is_inf b then inf_of (negative a \<noteq> negative b)
      else if is_zero a \<or> is_zero b then zero_of (negative a \<noteq> negative b)
      else binary64 (num_val a * num_val b))"

definition num_div :: "jsnum \<Rightarrow> jsnum \<Rightarrow> jsnum" where
  "num_div a b =
     (if a = NaN \<or> b = NaN then NaN
      else if (is_inf a \<and> is_inf b) \<or> (is_zero a \<and> is_zero b) then NaN
      else if is_inf a \<or> is_zero b then inf_of (negative a \<noteq> negative b)
      else if is_inf b \<or> is_zero a then zero_of (negative a \<noteq> negative b)
      else binary64 (num_val a / num_val b))"

text \<open>The remainder is exact and has the sign of the dividend.\<close>

definition num_mod :: "jsnum \<Rightarrow> jsnum \<Rightarrow> jsnum" where
  "num_mod a b =
     (if a = NaN \<or> b = NaN \<or> is_inf a \<or> is_zero b then NaN
      else if is_inf b \<or> is_zero a then a
      else
        (let x = \<bar>num_val a\<bar>; y = \<bar>num_val b\<bar>;
             r = x - y * of_int \<lfloor>x / y\<rfloor>
         in if r = 0 then zero_of (negative a)
            else Fin (if negative a then - r else r)))"

text \<open>\<open>Math.floor\<close>\<close>

fun num_floor :: "jsnum \<Rightarrow> jsnum" where
  "num_floor (Fin q) = Fin (of_int \<lfloor>q\<rfloor>)"
| "num_floor n = n"

subsection \<open>Values\<close>

datatype jsval =
    Undefined
  | Null
  | Boolean bool
  | Number jsnum
  | String string
  | Array "jsval list"
  | Object "(string \<times> jsval) list"
  | Error string

fun truthy :: "jsval \<Rightarrow> bool" where
  "truthy Undefined = False"
| "truthy Null = False"
| "truthy (Boolean b) = b"
| "truthy (Number n) = (n \<noteq> NaN \<and> \<not> is_zero n)"
| "truthy (String s) = (s \<noteq> [])"
| "truthy (Array xs) = True"
| "truthy (Object kvs) = True"
| "truthy (Error m) = True"

text \<open>\<open>a || b\<close>\<close>

definition js_or :: "jsval \<Rightarrow> jsval \<Rightarrow> jsval" where
  "js_or a b = (if truthy a then a else b)"

text \<open>\<open>obj[key]\<close> on an object; every other value has no such property here.\<close>

fun get_prop :: "jsval \<Rightarrow> string \<Rightarrow> jsval" where
  "get_prop (Object kvs) k = (case map_of kvs k of None \<Rightarrow> Undefined | Some v \<Rightarrow> v)"
| "get_prop v k = Undefined"

text \<open>
  \<open>obj[key] = v\<close>: an existing key keeps its place, a new key goes last. An assignment
  to \<open>__proto__\<close> on an object without such a property of its own goes to the setter of
  the prototype and gives the object no property.
\<close>

fun put_key :: "string \<Rightarrow> jsval \<Rightarrow> (string \<times> jsval) list \<Rightarrow> (string \<times> jsval) list" where
  "put_key k v [] = (if k = ''__proto__'' then [] else [(k, v)])"
| "put_key k v ((k', v') # kvs) =
     (if k' = k then (k, v) # kvs else (k', v') # put_key k v kvs)"

fun set_prop :: "jsval \<Rightarrow> string \<Rightarrow> jsval \<Rightarrow> jsval" where
  "set_prop (Object kvs) k v = Object (put_key k v kvs)"
| "set_prop x k v = x"

fun delete_prop :: "jsval \<Rightarrow> string \<Rightarrow> jsval" where
  "delete_prop (Object kvs) k = Object (filter (\<lambda>kv. fst kv \<noteq> k) kvs)"
| "delete_prop x k = x"

text \<open>
  \<open>_.assign(target, source)\<close> for objects; with a source or a target that is not an
  object the target is left as it is.
\<close>

fun js_assign :: "jsval \<Rightarrow> jsval \<Rightarrow> jsval" where
  "js_assign (Object kvs) (Object src) = Object (foldl (\<lambda>acc kv. put_key (fst kv) (snd kv) acc) kvs src)"
| "js_assign x y = x"

text \<open>
  What the language itself does to strings, arrays and objects when it needs a number or
  a string is left to two parameters: \<open>ToNumber\<close> and \<open>ToString\<close> on the values for
  which the model does not compute them.
\<close>

record coercions =
  other_to_number :: "jsval \<Rightarrow> jsnum"
  other_to_string :: "jsval \<Rightarrow> string"

fun to_number :: "coercions \<Rightarrow> jsval \<Rightarrow> jsnum" where
  "to_number co Undefined = NaN"
| "to_number co Null = Fin 0"
| "to_number co (Boolean b) = Fin (if b then 1 else 0)"
| "to_number co (Number n) = n"
| "to_number co v = other_to_number co v"

fun to_string :: "coercions \<Rightarrow> jsval \<Rightarrow> string" where
  "to_string co (String s) = s"
| "to_string co Undefined = ''undefined''"
| "to_string co Null = ''null''"
| "to_string co (Boolean b) = (if b then ''true'' else ''false'')"
| "to_string co v = other_to_string co v"

definition js_sub :: "coercions \<Rightarrow> jsval \<Rightarrow> jsval \<Rightarrow> jsval" where
  "js_sub co a b = Number (num_sub (to_number co a) (to_number co b))"

definition js_mul :: "coercions \<Rightarrow> jsval \<Rightarrow> jsval \<Rightarrow> jsval" where
  "js_mul co a b = Number (num_mul (to_number co a) (to_number co b))"

definition js_div :: "coercions \<Rightarrow> jsval \<Rightarrow> jsval \<Rightarrow> jsval" where
  "js_div co a b = Number (num_div (to_number co a) (to_number co b))"

definition js_mod :: "coercions \<Rightarrow> jsval \<Rightarrow> jsval \<Rightarrow> jsval" where
  "js_mod co a b = Number (num_mod (to_number co a) (to_number co b))"

fun is_number :: "jsval \<Rightarrow> bool" where
  "is_number (Number n) = True"
| "is_number v = False"

section \<open>Example inputs\<close>

text \<open>Concrete fields, stores and options on which the results below are evaluated.\<close>

definition plain_field :: "string \<Rightarrow> field" where
  "plain_field n =
     \<lparr> name = n, ftype = ''string'', required = False, fgroup = None,
       template = None, partial = None, choices = [] \<rparr>"

definition example_heap :: heap where
  "example_heap =
     (\<lambda>_. plain_field ''unused'')
       (0 := plain_field ''title'', 1 := plain_field ''body'', 2 := plain_field ''tags'',
        3 := (plain_field ''body'')\<lparr>ftype := ''area''\<rparr>)"

definition plain_group :: "string \<Rightarrow> string list \<Rightarrow> group" where
  "plain_group n fs = \<lparr> gname = n, glabel = n, gfields = fs, glast = False \<rparr>"

definition only_addFields :: "addr list \<Rightarrow> compose_options" where
  "only_addFields fs =
     \<lparr> addFields = Some fs, removeFields = None, requireFields = None,
       alterFields = None, arrangeFields = None \<rparr>"

text \<open>
  The module is configured with \<open>defaultGroup: { name: 'basics' }\<close>; the caller arranges
  \<open>title\<close> in the group \<open>basics\<close> and \<open>body\<close> in the group \<open>extras\<close>, and leaves \<open>tags\<close>
  to the default group.
\<close>

definition basics_override :: "default_group option" where
  "basics_override = Some \<lparr> dg_name = Some ''basics'', dg_label = None \<rparr>"

definition basics_options :: compose_options where
  "basics_options =
     \<lparr> addFields = Some [0, 1, 2], removeFields = None, requireFields = None,
       alterFields = None,
       arrangeFields = Some (ArrangeGroups
         [plain_group ''basics'' [''title''], plain_group ''extras'' [''body'']]) \<rparr>"

section \<open>The query cursor\<close>

subsection \<open>State and filter methods\<close>

text \<open>
  A cursor holds \<open>self.state\<close>, a mapping from keys to values in which a missing key
  reads as \<open>undefined\<close>, and the flag \<open>self._finalized\<close>.
\<close>

record cursor =
  state :: "string \<Rightarrow> jsval"
  finalized :: bool

definition set_state :: "string \<Rightarrow> jsval \<Rightarrow> cursor \<Rightarrow> cursor" where
  "set_state k v c = c\<lparr>state := (state c)(k := v)\<rparr>"

definition get_state :: "cursor \<Rightarrow> string \<Rightarrow> jsval" where
  "get_state c k = state c k"

text \<open>
  Code that may throw: it returns the exception, if one was thrown, and the cursor as it
  is at that point.
\<close>

type_synonym action = "cursor \<Rightarrow> jsval option \<times> cursor"

definition and_then :: "action \<Rightarrow> action \<Rightarrow> action" where
  "and_then f g c = (case f c of (Some e, c') \<Rightarrow> (Some e, c') | (None, c') \<Rightarrow> g c')"

text \<open>The \<open>i\<close>-th argument of a call; a missing argument is \<open>undefined\<close>.\<close>

definition arg :: "nat \<Rightarrow> jsval list \<Rightarrow> jsval" where
  "arg i args = (if i < length args then args ! i else Undefined)"

text \<open>
  The \<open>finalize\<close> function of a filter definition is absent, takes no argument and
  returns or throws (\<open>Inr\<close> the value returned, \<open>Inl\<close> the exception), or takes a callback
  and calls it with an error value (\<open>Inr\<close>) unless it throws first (\<open>Inl\<close>). The \<open>after\<close>
  function is alike; it also leaves the array of results as its writes made it.
\<close>

datatype finalize_fn =
    NoFinalize
  | Finalize0 "cursor \<Rightarrow> (jsval + jsval) \<times> cursor"
  | Finalize1 "cursor \<Rightarrow> (jsval + jsval) \<times> cursor"

datatype after_fn =
    NoAfter
  | After1 "jsval list \<Rightarrow> cursor \<Rightarrow> jsval option \<times> jsval list \<times> cursor"
  | After2 "jsval list \<Rightarrow> cursor \<Rightarrow> (jsval + jsval) \<times> jsval list \<times> cursor"

record filter_def =
  filter_name :: string
  def_value :: jsval
  set_fn :: "(jsval list \<Rightarrow> action) option"
  finalize_fn :: finalize_fn
  after_fn :: after_fn
  launder :: "(jsval \<Rightarrow> jsval) option"
  safeFor :: "string option"

definition already_finalized :: "string \<Rightarrow> jsval" where
  "already_finalized n =
     Error (''The cursor has already been finalized, refusing to add '' @ n @
            '' filter. To add more filters, clone this filter: cursor.clone()'')"

definition default_set :: "string \<Rightarrow> jsval list \<Rightarrow> action" where
  "default_set n args c = (None, set_state n (arg 0 args) c)"

text \<open>\<open>self[name]\<close>, the chainable method that \<open>addFilter\<close> builds.\<close>

definition filter_method :: "filter_def \<Rightarrow> jsval list \<Rightarrow> action" where
  "filter_method d args c =
     (if finalized c then (Some (already_finalized (filter_name d)), c)
      else (case set_fn d of
              None \<Rightarrow> default_set (filter_name d) args c
            | Some s \<Rightarrow> s args c))"

text \<open>Applying the default when the filter has no value yet.\<close>

definition apply_default :: "filter_def \<Rightarrow> action" where
  "apply_default d c =
     (if get_state c (filter_name d) = Undefined then filter_method d [def_value d] c
      else (None, c))"

subsection \<open>Finalizers and the finalize pass\<close>

text \<open>
  A task of \<open>async.series\<close> either calls its callback with an error value and a result,
  or throws.
\<close>

datatype task_result = Called jsval jsval cursor | Thrown jsval cursor

text \<open>
  \<open>self.finalizers[name]\<close>. A \<open>finalize\<close> that takes the callback reports through it.
  One that takes no argument is run inside \<open>try\<close>; both branches call
  \<open>callback(null, ...)\<close>, the \<open>catch\<close> branch with the exception as the result.
\<close>

definition finalizer :: "filter_def \<Rightarrow> cursor \<Rightarrow> task_result" where
  "finalizer d c =
     (case apply_default d c of
        (Some e, c) \<Rightarrow> Thrown e c
      | (None, c) \<Rightarrow>
          (case finalize_fn d of
             NoFinalize \<Rightarrow> Called Null Undefined c
           | Finalize1 f \<Rightarrow>
               (case f c of (Inl e, c) \<Rightarrow> Thrown e c | (Inr err, c) \<Rightarrow> Called err Undefined c)
           | Finalize0 f \<Rightarrow>
               (case f c of
                  (Inr returned, c) \<Rightarrow> Called Null returned c
                | (Inl e, c) \<Rightarrow> Called Null e c)))"

text \<open>\<open>async.series\<close>: the first task that reports a truthy error ends the series.\<close>

fun series :: "(cursor \<Rightarrow> task_result) list \<Rightarrow> cursor \<Rightarrow> task_result" where
  "series [] c = Called Null Undefined c"
| "series (t # ts) c =
     (case t c of
        Thrown e c \<Rightarrow> Thrown e c
      | Called err r c \<Rightarrow> if truthy err then Called err Undefined c else series ts c)"

text \<open>
  What the caller of an operation gets: the callback called without an error and with a
  value, the callback called with an error alone, or an exception.
\<close>

datatype 'a outcome = Success 'a cursor | Failure jsval cursor | Raised jsval cursor

fun cursor_of :: "'a outcome \<Rightarrow> cursor" where
  "cursor_of (Success x c) = c"
| "cursor_of (Failure e c) = c"
| "cursor_of (Raised e c) = c"

text \<open>
  \<open>self.finalize\<close>. A finalizer that reports \<open>'refinalize'\<close> restarts the pass, so the
  function takes the number of passes it may make; \<open>None\<close> says they were not enough.
\<close>

fun finalize :: "nat \<Rightarrow> filter_def list \<Rightarrow> cursor \<Rightarrow> unit outcome option" where
  "finalize 0 fs c = None"
| "finalize (Suc n) fs c =
     (if finalized c then Some (Success () c)
      else (case series (map finalizer fs) c of
              Thrown e c \<Rightarrow> Some (Raised e c)
            | Called err r c \<Rightarrow>
                if truthy err then
                  (if err = String ''refinalize'' then finalize n fs c
                   else Some (Failure err c))
                else Some (Success () (c\<lparr>finalized := True\<rparr>))))"

subsection \<open>After hooks\<close>

datatype after_result = AfterCalled jsval "jsval list" cursor | AfterThrown jsval cursor

text \<open>
  \<open>self.afters[name]\<close>. Here the \<open>catch\<close> branch calls \<open>callback(e)\<close>: the exception is
  the error.
\<close>

definition after_hook :: "filter_def \<Rightarrow> jsval list \<Rightarrow> cursor \<Rightarrow> after_result" where
  "after_hook d results c =
     (case apply_default d c of
        (Some e, c) \<Rightarrow> AfterThrown e c
      | (None, c) \<Rightarrow>
          (case after_fn d of
             NoAfter \<Rightarrow> AfterCalled Null results c
           | After2 f \<Rightarrow>
               (case f results c of
                  (Inl e, results, c) \<Rightarrow> AfterThrown e c
                | (Inr err, results, c) \<Rightarrow> AfterCalled err results c)
           | After1 f \<Rightarrow>
               (case f results c of
                  (None, results, c) \<Rightarrow> AfterCalled Null results c
                | (Some e, results, c) \<Rightarrow> AfterCalled e results c)))"

fun each_series ::
  "(jsval list \<Rightarrow> cursor \<Rightarrow> after_result) list \<Rightarrow> jsval list \<Rightarrow> cursor \<Rightarrow> after_result" where
  "each_series [] results c = AfterCalled Null results c"
| "each_series (t # ts) results c =
     (case t results c of
        AfterThrown e c \<Rightarrow> AfterThrown e c
      | AfterCalled err results c \<Rightarrow>
          if truthy err then AfterCalled err results c else each_series ts results c)"

text \<open>\<open>self.after\<close>\<close>

definition after :: "filter_def list \<Rightarrow> jsval list \<Rightarrow> cursor \<Rightarrow> (jsval list) outcome" where
  "after fs results c =
     (let originalFinalized = finalized c;
          c = c\<lparr>finalized := False\<rparr>
      in case each_series (map after_hook fs) results c of
           AfterThrown e c \<Rightarrow> Raised e c
         | AfterCalled err results c \<Rightarrow>
             if truthy err then Failure err c
             else Success results (c\<lparr>finalized := originalFinalized\<rparr>))"

subsection \<open>The document store and the terminal operations\<close>

text \<open>
  The store driver is outside the sources. \<open>db.find\<close> followed by \<open>skip\<close>, \<open>limit\<close> and
  \<open>sort\<close> describes a query; the driver answers \<open>toArray\<close> and \<open>count\<close> on a query, and
  \<open>distinct\<close> on a property and criteria, with an error value and a result.
\<close>

record query =
  q_criteria :: jsval
  q_projection :: jsval
  q_skip :: "jsval option"
  q_limit :: "jsval option"
  q_sort :: jsval

record database =
  find_toArray :: "query \<Rightarrow> jsval \<times> jsval list"
  find_count :: "query \<Rightarrow> jsval \<times> jsval"
  db_distinct :: "jsval \<Rightarrow> jsval \<Rightarrow> jsval \<times> jsval"

text \<open>\<open>self.toMongo\<close>\<close>

definition build_query :: "cursor \<Rightarrow> query \<times> cursor" where
  "build_query c =
     (let criteria = get_state c ''criteria'';
          lateCriteria = get_state c ''lateCriteria'';
          c = (if truthy lateCriteria
               then set_state ''criteria'' (js_assign criteria lateCriteria) c else c);
          skip = get_state c ''skip'';
          limit = get_state c ''limit''
      in (\<lparr> q_criteria = get_state c ''criteria'',
            q_projection = get_state c ''projection'',
            q_skip = (if is_number skip then Some skip else None),
            q_limit = (if is_number limit then Some limit else None),
            q_sort = get_state c ''sortMongo'' \<rparr>, c))"

definition toMongo :: "nat \<Rightarrow> filter_def list \<Rightarrow> cursor \<Rightarrow> query outcome option" where
  "toMongo n fs c =
     (case finalize n fs c of
        None \<Rightarrow> None
      | Some (Raised e c) \<Rightarrow> Some (Raised e c)
      | Some (Failure err c) \<Rightarrow> Some (Failure err c)
      | Some (Success u c) \<Rightarrow> (case build_query c of (mongo, c) \<Rightarrow> Some (Success mongo c)))"

text \<open>
  The driver's \<open>toArray\<close> takes its callback as the first argument and calls it with the
  error and the documents. It has no use for a second argument.
\<close>

definition mongo_toArray ::
  "database \<Rightarrow> query \<Rightarrow> (jsval \<times> jsval list \<Rightarrow> 'r) \<Rightarrow> 'h \<Rightarrow> 'r" where
  "mongo_toArray db mongo callback second = callback (find_toArray db mongo)"

text \<open>
  The function that \<open>mongoToArray\<close> passes as that second argument. Had it been called,
  it would pass an error on, and with \<open>explicitOrder\<close> set it would throw a
  \<open>ReferenceError\<close>, since \<open>idProperty\<close> and \<open>ids\<close> are declared nowhere: \<open>idProperty\<close> is
  read for the first result, \<open>ids\<close> when there is none. With \<open>explicitOrder\<close> unset it
  returns without calling the callback.
\<close>

datatype 'r reply = Reply 'r | NoReply | Throws jsval

definition explicit_order_handler ::
  "cursor \<Rightarrow> (jsval \<times> jsval list \<Rightarrow> 'r) \<Rightarrow> jsval \<times> jsval list \<Rightarrow> 'r reply" where
  "explicit_order_handler c callback er =
     (case er of (err, results) \<Rightarrow>
        if truthy err then Reply (callback (err, []))
        else if truthy (get_state c ''explicitOrder'') then
          (if results \<noteq> [] then Throws (Error ''idProperty is not defined'')
           else Throws (Error ''ids is not defined''))
        else NoReply)"

text \<open>\<open>self.mongoToArray\<close>\<close>

definition mongoToArray ::
  "database \<Rightarrow> cursor \<Rightarrow> query \<Rightarrow> (jsval \<times> jsval list \<Rightarrow> 'r) \<Rightarrow> 'r" where
  "mongoToArray db c mongo callback =
     mongo_toArray db mongo callback (explicit_order_handler c callback)"

text \<open>
  \<open>self.toArray\<close>: \<open>async.waterfall\<close> over \<open>toMongo\<close>, \<open>mongoToArray\<close> and \<open>after\<close>. A
  truthy error of one step goes to the caller and the later steps do not run.
\<close>

definition toArray ::
  "nat \<Rightarrow> filter_def list \<Rightarrow> database \<Rightarrow> cursor \<Rightarrow> (jsval list) outcome option" where
  "toArray n fs db c =
     (case toMongo n fs c of
        None \<Rightarrow> None
      | Some (Raised e c) \<Rightarrow> Some (Raised e c)
      | Some (Failure err c) \<Rightarrow> Some (Failure err c)
      | Some (Success mongo c) \<Rightarrow>
          Some (mongoToArray db c mongo
                  (\<lambda>(err, results). if truthy err then Failure err c else after fs results c)))"

text \<open>\<open>self.toObject\<close>\<close>

definition toObject ::
  "nat \<Rightarrow> filter_def list \<Rightarrow> database \<Rightarrow> cursor \<Rightarrow> jsval outcome option" where
  "toObject n fs db c =
     (let limit = get_state c ''limit'';
          c = set_state ''limit'' (Number (Fin 1)) c
      in case toArray n fs db c of
           None \<Rightarrow> None
         | Some (Raised e c) \<Rightarrow> Some (Raised e c)
         | Some (Failure err c) \<Rightarrow> Some (Failure err c)
         | Some (Success results c) \<Rightarrow>
             Some (Success (arg 0 results) (set_state ''limit'' limit c)))"

text \<open>\<open>self.toDistinct\<close>\<close>

definition toDistinct ::
  "nat \<Rightarrow> filter_def list \<Rightarrow> database \<Rightarrow> jsval \<Rightarrow> cursor \<Rightarrow> jsval outcome option" where
  "toDistinct n fs db property c =
     (case finalize n fs c of
        None \<Rightarrow> None
      | Some (Raised e c) \<Rightarrow> Some (Raised e c)
      | Some (Failure err c) \<Rightarrow> Some (Failure err c)
      | Some (Success u c) \<Rightarrow>
          (case db_distinct db property (get_state c ''criteria'') of
             (err, values) \<Rightarrow>
               Some (if truthy err then Failure err c else Success values c)))"

text \<open>
  \<open>self.clone\<close>: a new cursor of the same class with a copy of the state. The new cursor
  has not been finalized.
\<close>

definition clone :: "cursor \<Rightarrow> cursor" where
  "clone c = \<lparr> state = state c, finalized = False \<rparr>"

text \<open>\<open>cursor[name](value)\<close> for a filter looked up by its name.\<close>

definition call_named :: "filter_def list \<Rightarrow> string \<Rightarrow> jsval list \<Rightarrow> action" where
  "call_named fs n args c =
     (case find (\<lambda>d. filter_name d = n) fs of
        None \<Rightarrow> (Some (Error (''cursor.'' @ n @ '' is not a function'')), c)
      | Some d \<Rightarrow> filter_method d args c)"

text \<open>
  \<open>Math.floor(count / perPage)\<close>, incremented when \<open>count % perPage\<close> is truthy.
\<close>

definition total_pages :: "jsnum \<Rightarrow> jsnum \<Rightarrow> jsnum" where
  "total_pages count perPage =
     (let totalPages = num_floor (num_div count perPage)
      in if truthy (Number (num_mod count perPage)) then num_add totalPages (Fin 1)
         else totalPages)"

text \<open>\<open>self.toCount\<close>\<close>

definition toCount ::
  "nat \<Rightarrow> coercions \<Rightarrow> filter_def list \<Rightarrow> database \<Rightarrow> cursor
     \<Rightarrow> jsval outcome option" where
  "toCount n co fs db c =
     (case and_then (call_named fs ''skip'' [Undefined])
             (and_then (call_named fs ''limit'' [Undefined])
               (and_then (call_named fs ''page'' [Undefined])
                 (call_named fs ''perPage'' [Undefined]))) (clone c) of
        (Some e, cl) \<Rightarrow> Some (Raised e c)
      | (None, cl) \<Rightarrow>
          (case toMongo n fs cl of
             None \<Rightarrow> None
           | Some (Raised e cl) \<Rightarrow> Some (Raised e c)
           | Some (Failure err cl) \<Rightarrow> Some (Failure err c)
           | Some (Success mongo cl) \<Rightarrow>
               (case find_count db mongo of
                  (err, count) \<Rightarrow>
                    if truthy err then Some (Failure err c)
                    else
                      (let perPage = get_state c ''perPage'';
                           c = (if truthy perPage
                                then set_state ''totalPages''
                                       (Number (total_pages (to_number co count)
                                                  (to_number co perPage))) c
                                else c)
                       in Some (Success count c)))))"

subsection \<open>The built-in filters\<close>

text \<open>
  What the filters ask of other modules is a parameter of the model: the permissions
  module, the doc type managers, \<open>apos.utils.searchify\<close>, the launder module, the
  schemas module's \<open>join\<close> as the \<open>joins\<close> filter calls it, and the \<open>finalize\<close> function
  that \<open>./autocomplete.js\<close> builds, which is not among the sources.
  \<open>manager_schema t\<close> is the schema of the manager of type \<open>t\<close>, as field names with
  their \<open>sortify\<close> flags, or \<open>None\<close> when there is no manager or it has no schema.
  \<open>schemas_join\<close> and a manager's \<open>addUrls\<close> are given the whole array of results and
  the type whose documents they work on, and leave the array as their writes made it.
\<close>

record env =
  coerce :: coercions
  launder_string :: "jsval \<Rightarrow> jsval"
  launder_booleanOrNull :: "jsval \<Rightarrow> jsval"
  launder_integer :: "jsval \<Rightarrow> jsval \<Rightarrow> jsval \<Rightarrow> jsval"
  permissions_criteria :: "jsval \<Rightarrow> jsval \<Rightarrow> jsval"
  permissions_annotate :: "jsval \<Rightarrow> string \<Rightarrow> jsval list \<Rightarrow> jsval list"
  manager_schema :: "jsval \<Rightarrow> (string \<times> bool) list option"
  manager_addUrls :: "string \<Rightarrow> (jsval \<Rightarrow> jsval list \<Rightarrow> jsval \<times> jsval list) option"
  searchify :: "jsval \<Rightarrow> jsval"
  autocomplete_finalize :: finalize_fn
  schemas_join :: "jsval \<Rightarrow> string \<Rightarrow> jsval \<Rightarrow> jsval list \<Rightarrow> jsval \<times> jsval list"

definition simple_filter :: "string \<Rightarrow> jsval \<Rightarrow> filter_def" where
  "simple_filter n d =
     \<lparr> filter_name = n, def_value = d, set_fn = None, finalize_fn = NoFinalize,
       after_fn = NoAfter, launder = None, safeFor = None \<rparr>"

text \<open>A \<open>finalize\<close> without arguments whose body is the given code; it returns nothing.\<close>

definition returning :: "action \<Rightarrow> finalize_fn" where
  "returning f =
     Finalize0 (\<lambda>c. case f c of (None, c) \<Rightarrow> (Inr Undefined, c) | (Some e, c) \<Rightarrow> (Inl e, c))"

definition skip_action :: action where
  "skip_action c = (None, c)"

definition criteria_filter :: filter_def where
  "criteria_filter = simple_filter ''criteria'' (Object [])"

definition addLateCriteria_set :: "jsval list \<Rightarrow> action" where
  "addLateCriteria_set args c =
     (let x = arg 0 args;
          lateCriteria = get_state c ''lateCriteria'';
          lateCriteria = (if \<not> truthy lateCriteria then x else js_assign lateCriteria x)
      in (None, set_state ''lateCriteria'' lateCriteria c))"

definition addLateCriteria_filter :: filter_def where
  "addLateCriteria_filter =
     (simple_filter ''addLateCriteria'' Undefined)\<lparr>set_fn := Some addLateCriteria_set\<rparr>"

definition and_set :: "jsval list \<Rightarrow> action" where
  "and_set args c =
     (let x = arg 0 args
      in if \<not> truthy x then (None, c)
         else
           (let criteria = get_state c ''criteria''
            in if \<not> truthy criteria then filter_method criteria_filter [x] c
               else filter_method criteria_filter
                      [Object [(''$and'', Array [criteria, x])]] c))"

definition and_filter :: filter_def where
  "and_filter = (simple_filter ''and'' Undefined)\<lparr>set_fn := Some and_set\<rparr>"

text \<open>\<open>self.and(x)\<close>\<close>

definition self_and :: "jsval \<Rightarrow> action" where
  "self_and x = filter_method and_filter [x]"

definition text_score :: jsval where
  "text_score = Object [(''$meta'', String ''textScore'')]"

definition projection_finalize :: action where
  "projection_finalize c =
     (let projection = get_state c ''projection'';
          projection = (if \<not> truthy projection then Object [] else projection);
          projection = (if truthy (get_state c ''search'')
                        then set_prop projection ''textScore'' text_score else projection)
      in (None, set_state ''projection'' projection c))"

definition projection_filter :: filter_def where
  "projection_filter =
     (simple_filter ''projection'' Undefined)\<lparr>finalize_fn := returning projection_finalize\<rparr>"

definition defaultSort_filter :: filter_def where
  "defaultSort_filter = simple_filter ''defaultSort'' Undefined"

text \<open>
  The \<open>launder\<close> of \<open>sort\<close>. \<open>typeof\<close> is \<open>'object'\<close> for objects, arrays, errors and
  \<open>null\<close>. \<open>_.each\<close> walks an array, and an object whose \<open>length\<close> is a valid array
  length, by index: the keys are then numbers and nothing is kept. Of any other object
  it walks the keys.
\<close>

fun sort_direction :: "jsval \<Rightarrow> jsval option" where
  "sort_direction (String s) =
     (if s = ''-1'' then Some (Number (Fin (- 1)))
      else if s = ''1'' then Some (Number (Fin 1)) else None)"
| "sort_direction (Number n) =
     (if n = Fin (- 1) \<or> n = Fin 1 then Some (Number n) else None)"
| "sort_direction v = None"

fun is_length :: "jsval \<Rightarrow> bool" where
  "is_length (Number (Fin q)) = (q = of_int \<lfloor>q\<rfloor> \<and> 0 \<le> q \<and> q \<le> 2 ^ 53 - 1)"
| "is_length (Number NegZero) = True"
| "is_length v = False"

fun sort_launder :: "jsval \<Rightarrow> jsval" where
  "sort_launder (Object kvs) =
     (if is_length (get_prop (Object kvs) ''length'') then Object []
      else foldl (\<lambda>sorting kv. case sort_direction (snd kv) of
                              None \<Rightarrow> sorting
                            | Some v \<Rightarrow> set_prop sorting (fst kv) v) (Object []) kvs)"
| "sort_launder (String s) = (if s = ''search'' then String s else Undefined)"
| "sort_launder Null = Object []"
| "sort_launder (Array xs) = Object []"
| "sort_launder (Error m) = Object []"
| "sort_launder v = Undefined"

text \<open>
  The second half of the \<open>finalize\<close> of \<open>sort\<close>: keys of the sort that name a field with
  \<open>sortify\<close> are renamed. Only an object has keys here.
\<close>

definition sortify_key :: "string list \<Rightarrow> jsval \<Rightarrow> string \<Rightarrow> jsval" where
  "sortify_key sortify sorting key =
     (if key \<in> set sortify
      then delete_prop (set_prop sorting (key @ ''Sortified'') (get_prop sorting key)) key
      else sorting)"

fun object_keys :: "jsval \<Rightarrow> string list" where
  "object_keys (Object kvs) = map fst kvs"
| "object_keys v = []"

text \<open>The first half of the \<open>finalize\<close> of \<open>sort\<close>: the sort that is going to be used.\<close>

definition chosen_sort :: "cursor \<Rightarrow> jsval" where
  "chosen_sort c =
     (let sorting = get_state c ''sort''
      in if sorting = Boolean False then sorting
         else if truthy (get_state c ''search'') then
           (if \<not> truthy (get_state c ''regexSearch'') then
              (if \<not> truthy sorting \<or> sorting = String ''search''
               then Object [(''textScore'', text_score)] else sorting)
            else sorting)
         else if \<not> truthy sorting then
           js_or (get_state c ''defaultSort'') (Object [(''title'', Number (Fin 1))])
         else sorting)"

text \<open>
  Without a manager that has a schema the code reads \<open>callback\<close>, which is declared
  nowhere in that function: a \<open>ReferenceError\<close>.
\<close>

definition sort_finalize :: "env \<Rightarrow> action" where
  "sort_finalize e c =
     (let sorting = chosen_sort c;
          c = set_state ''sort'' sorting c
      in if truthy sorting then
           (case manager_schema e (js_or (get_state c ''type'') (String ''apostrophe-page'')) of
              None \<Rightarrow> (Some (Error ''callback is not defined''), c)
            | Some schema \<Rightarrow>
                (let sortify = map fst (filter snd schema);
                     sorting = foldl (sortify_key sortify) sorting (object_keys sorting)
                 in (None, set_state ''sortMongo'' sorting c)))
         else (None, set_state ''sortMongo'' sorting c))"

definition sort_filter :: "env \<Rightarrow> filter_def" where
  "sort_filter e =
     (simple_filter ''sort'' Undefined)
       \<lparr>finalize_fn := returning (sort_finalize e), launder := Some sort_launder\<rparr>"

definition skip_filter :: "env \<Rightarrow> filter_def" where
  "skip_filter e =
     (simple_filter ''skip'' Undefined)
       \<lparr>launder := Some (\<lambda>s. launder_integer e s (Number (Fin 0)) (Number (Fin 0))),
        safeFor := Some ''public''\<rparr>"

definition limit_filter :: "env \<Rightarrow> filter_def" where
  "limit_filter e =
     (simple_filter ''limit'' Undefined)
       \<lparr>launder := Some (\<lambda>s. launder_integer e s (Number (Fin 0)) (Number (Fin 0))),
        safeFor := Some ''public''\<rparr>"

definition perPage_filter :: filter_def where
  "perPage_filter = simple_filter ''perPage'' Undefined"

definition page_finalize :: "env \<Rightarrow> action" where
  "page_finalize e c =
     (if truthy (get_state c ''perPage'') then
        and_then
          (filter_method (skip_filter e)
             [js_mul (coerce e)
                (js_sub (coerce e) (get_state c ''page'') (Number (Fin 1)))
                (get_state c ''perPage'')])
          (\<lambda>c. filter_method (limit_filter e) [get_state c ''perPage''] c) c
      else (None, c))"

definition page_filter :: "env \<Rightarrow> filter_def" where
  "page_filter e =
     (simple_filter ''page'' (Number (Fin 1)))
       \<lparr>finalize_fn := returning (page_finalize e),
        launder := Some (\<lambda>i. launder_integer e i (Number (Fin 1)) (Number (Fin 1))),
        safeFor := Some ''public''\<rparr>"

text \<open>
  The \<open>finalize\<close> of \<open>permission\<close>. Only a string has the \<open>match\<close> method that is called
  on a truthy permission; on any other truthy value the call throws.
\<close>

definition permission_finalize :: "env \<Rightarrow> action" where
  "permission_finalize e c =
     (let typeSuffix = ''-'' @ to_string (coerce e) (js_or (get_state c ''type'') (String ''doc''));
          permission = get_state c ''permission''
      in if permission = Boolean False then (None, c)
         else if truthy permission then
           (case permission of
              String s \<Rightarrow>
                self_and (permissions_criteria e (get_state c ''req'')
                            (String (if CHR ''-'' \<in> set s then s else s @ typeSuffix))) c
            | _ \<Rightarrow> (Some (Error ''permission.match is not a function''), c))
         else self_and (permissions_criteria e (get_state c ''req'')
                          (String (''view-'' @ typeSuffix))) c)"

definition permission_after :: "env \<Rightarrow> jsval list \<Rightarrow> cursor \<Rightarrow> jsval option \<times> jsval list \<times> cursor" where
  "permission_after e results c =
     (let results = permissions_annotate e (get_state c ''req'') ''edit-doc'' results;
          results = permissions_annotate e (get_state c ''req'') ''publish-doc'' results
      in (None, results, c))"

definition permission_filter :: "env \<Rightarrow> filter_def" where
  "permission_filter e =
     (simple_filter ''permission'' Undefined)
       \<lparr>finalize_fn := returning (permission_finalize e),
        after_fn := After1 (permission_after e)\<rparr>"

definition autocomplete_filter :: "env \<Rightarrow> filter_def" where
  "autocomplete_filter e =
     (simple_filter ''autocomplete'' Undefined)
       \<lparr>finalize_fn := autocomplete_finalize e,
        launder := Some (launder_string e), safeFor := Some ''public''\<rparr>"

definition search_finalize :: "env \<Rightarrow> action" where
  "search_finalize e c =
     (let search = get_state c ''search''
      in if truthy search then
           (if truthy (get_state c ''regexSearch'')
            then self_and (Object [(''highSearchText'', searchify e search)]) c
            else self_and (Object [(''$text'', Object [(''$search'', search)])]) c)
         else (None, c))"

definition search_filter :: "env \<Rightarrow> filter_def" where
  "search_filter e =
     (simple_filter ''search'' Undefined)
       \<lparr>finalize_fn := returning (search_finalize e),
        launder := Some (launder_string e), safeFor := Some ''public''\<rparr>"

definition tag_finalize :: action where
  "tag_finalize c =
     (let tag = get_state c ''tag''
      in if truthy tag then self_and (Object [(''tags'', tag)]) c else (None, c))"

definition tag_filter :: "env \<Rightarrow> filter_def" where
  "tag_filter e =
     (simple_filter ''tag'' Undefined)
       \<lparr>finalize_fn := returning tag_finalize,
        launder := Some (launder_string e), safeFor := Some ''public''\<rparr>"

definition tags_finalize :: action where
  "tags_finalize c =
     (let tags = get_state c ''tags''
      in if truthy tags then self_and (Object [(''tags'', Object [(''$in'', tags)])]) c
         else (None, c))"

fun tags_launder :: "env \<Rightarrow> jsval \<Rightarrow> jsval" where
  "tags_launder e (Array xs) = Array (map (launder_string e) xs)"
| "tags_launder e v = Array []"

definition tags_filter :: "env \<Rightarrow> filter_def" where
  "tags_filter e =
     (simple_filter ''tags'' Undefined)
       \<lparr>finalize_fn := returning tags_finalize,
        launder := Some (tags_launder e), safeFor := Some ''public''\<rparr>"

text \<open>The clause that keeps documents out of the trash.\<close>

definition not_trash :: jsval where
  "not_trash =
     Object [(''$or'', Array [Object [(''trash'', Object [(''$exists'', Number (Fin 0))])],
                             Object [(''trash'', Boolean False)]])]"

definition trash_finalize :: action where
  "trash_finalize c =
     (let trash = get_state c ''trash''
      in if trash = Null then (None, c)
         else if \<not> truthy trash then self_and not_trash c
         else self_and (Object [(''trash'', Boolean True)]) c)"

definition trash_filter :: "env \<Rightarrow> filter_def" where
  "trash_filter e =
     (simple_filter ''trash'' Undefined)
       \<lparr>finalize_fn := returning trash_finalize,
        launder := Some (launder_booleanOrNull e), safeFor := Some ''manage''\<rparr>"

definition published_finalize :: action where
  "published_finalize c =
     (let published = get_state c ''published''
      in if published = Null then (None, c)
         else if truthy published then self_and (Object [(''published'', Boolean True)]) c
         else self_and (Object [(''published'', Object [(''$ne'', Boolean True)])]) c)"

definition published_filter :: "env \<Rightarrow> filter_def" where
  "published_filter e =
     (simple_filter ''published'' (Boolean True))
       \<lparr>finalize_fn := returning published_finalize,
        launder := Some (launder_booleanOrNull e), safeFor := Some ''manage''\<rparr>"

definition explicitOrder_set :: "jsval list \<Rightarrow> action" where
  "explicitOrder_set args c =
     (None, set_state ''explicitOrderProperty'' (arg 1 args)
              (set_state ''explicitOrder'' (arg 0 args) c))"

definition explicitOrder_filter :: filter_def where
  "explicitOrder_filter =
     (simple_filter ''explicitOrder'' Undefined)\<lparr>set_fn := Some explicitOrder_set\<rparr>"

definition type_finalize :: action where
  "type_finalize c =
     (let t = get_state c ''type''
      in if truthy t then self_and (Object [(''type'', t)]) c else (None, c))"

definition type_filter :: filter_def where
  "type_filter =
     (simple_filter ''type'' Undefined)\<lparr>finalize_fn := returning type_finalize\<rparr>"

text \<open>
  \<open>_.keys(_.groupBy(results, 'type'))\<close>: the types of the results, each once, in the
  order of their first appearance.
\<close>

definition result_types :: "coercions \<Rightarrow> jsval list \<Rightarrow> string list" where
  "result_types co results = rev (remdups (rev (map (\<lambda>r. to_string co (get_prop r ''type'')) results)))"

text \<open>
  \<open>async.eachSeries\<close> over the types: the step for a type is skipped (\<open>None\<close>) or reports
  an error value and leaves the results.
\<close>

fun each_type ::
  "(string \<Rightarrow> jsval list \<Rightarrow> (jsval \<times> jsval list) option) \<Rightarrow> string list \<Rightarrow> jsval list
     \<Rightarrow> jsval \<times> jsval list" where
  "each_type f [] results = (Null, results)"
| "each_type f (t # ts) results =
     (case f t results of
        None \<Rightarrow> each_type f ts results
      | Some (err, results) \<Rightarrow>
          if truthy err then (err, results) else each_type f ts results)"

definition joins_after ::
  "env \<Rightarrow> jsval list \<Rightarrow> cursor \<Rightarrow> (jsval + jsval) \<times> jsval list \<times> cursor" where
  "joins_after e results c =
     (if \<not> truthy (get_state c ''joins'') then (Inr Undefined, results, c)
      else
        (case each_type
                (\<lambda>t results.
                   case manager_schema e (String t) of
                     None \<Rightarrow> None
                   | Some schema \<Rightarrow>
                       Some (schemas_join e (get_state c ''req'') t (get_state c ''joins'') results))
                (result_types (coerce e) results) results of
           (err, results) \<Rightarrow> (Inr err, results, c)))"

definition joins_filter :: "env \<Rightarrow> filter_def" where
  "joins_filter e =
     (simple_filter ''joins'' (Boolean True))\<lparr>after_fn := After2 (joins_after e)\<rparr>"

definition addUrls_after ::
  "env \<Rightarrow> jsval list \<Rightarrow> cursor \<Rightarrow> (jsval + jsval) \<times> jsval list \<times> cursor" where
  "addUrls_after e results c =
     (if \<not> truthy (get_state c ''addUrls'') then (Inr Undefined, results, c)
      else
        (case each_type
                (\<lambda>t results.
                   case manager_addUrls e t of
                     None \<Rightarrow> None
                   | Some addUrls \<Rightarrow> Some (addUrls (get_state c ''req'') results))
                (result_types (coerce e) results) results of
           (err, results) \<Rightarrow> (Inr err, results, c)))"

definition addUrls_filter :: "env \<Rightarrow> filter_def" where
  "addUrls_filter e =
     (simple_filter ''addUrls'' (Boolean True))\<lparr>after_fn := After2 (addUrls_after e)\<rparr>"

text \<open>The filters of a cursor, in the order in which \<open>construct\<close> adds them.\<close>

definition builtin_filters :: "env \<Rightarrow> filter_def list" where
  "builtin_filters e =
     [criteria_filter, addLateCriteria_filter, and_filter, projection_filter,
      defaultSort_filter, sort_filter e, skip_filter e, limit_filter e, perPage_filter,
      page_filter e, permission_filter e, autocomplete_filter e, search_filter e,
      tag_filter e, tags_filter e, trash_filter e, published_filter e,
      explicitOrder_filter, type_filter, joins_filter e, addUrls_filter e]"

text \<open>
  \<open>self.addFilter\<close> on a set of filters: a name already there keeps its place and gets
  the new definition, a new name goes last.
\<close>

fun addFilter :: "filter_def \<Rightarrow> filter_def list \<Rightarrow> filter_def list" where
  "addFilter d [] = [d]"
| "addFilter d (d' # ds) =
     (if filter_name d' = filter_name d then d # ds else d' # addFilter d ds)"

text \<open>
  \<open>self.queryToFilters\<close>: of the pairs of the query, those naming a filter that has a
  \<open>launder\<close> and is safe for the given domain are laundered and applied.
\<close>

definition query_step ::
  "filter_def list \<Rightarrow> string option \<Rightarrow> string \<times> jsval \<Rightarrow> action" where
  "query_step fs safe kv c =
     (case find (\<lambda>d. filter_name d = fst kv) fs of
        None \<Rightarrow> (None, c)
      | Some d \<Rightarrow>
          (case launder d of
             None \<Rightarrow> (None, c)
           | Some l \<Rightarrow>
               if (case safe of
                     None \<Rightarrow> False
                   | Some s \<Rightarrow> s \<noteq> [] \<and> s \<noteq> ''manage'' \<and> Some s \<noteq> safeFor d)
               then (None, c)
               else filter_method d [l (snd kv)] c))"

fun queryToFilters ::
  "filter_def list \<Rightarrow> (string \<times> jsval) list \<Rightarrow> string option \<Rightarrow> action" where
  "queryToFilters fs [] safe c = (None, c)"
| "queryToFilters fs (kv # kvs) safe c =
     and_then (query_step fs safe kv) (queryToFilters fs kvs safe) c"

subsection \<open>Example cursors and stores\<close>

definition new_cursor :: cursor where
  "new_cursor = \<lparr> state = (\<lambda>_. Undefined), finalized = False \<rparr>"

text \<open>
  Collaborators that do as little as possible: no manager is known, every permission
  check contributes the empty criteria, and the \<open>finalize\<close> of \<open>autocomplete\<close> calls its
  callback without an error.
\<close>

definition example_env :: env where
  "example_env =
     \<lparr> coerce = \<lparr> other_to_number = (\<lambda>_. NaN), other_to_string = (\<lambda>_. ''object'') \<rparr>,
       launder_string = (\<lambda>v. case v of String s \<Rightarrow> String s | _ \<Rightarrow> String ''''),
       launder_booleanOrNull = (\<lambda>v. case v of Boolean b \<Rightarrow> Boolean b | _ \<Rightarrow> Null),
       launder_integer = (\<lambda>v d m. case v of Number n \<Rightarrow> Number n | _ \<Rightarrow> d),
       permissions_criteria = (\<lambda>req p. Object []),
       permissions_annotate = (\<lambda>req p results. results),
       manager_schema = (\<lambda>t. None),
       manager_addUrls = (\<lambda>t. None),
       searchify = (\<lambda>v. v),
       autocomplete_finalize = Finalize1 (\<lambda>c. (Inr Undefined, c)),
       schemas_join = (\<lambda>req t joins results. (Null, results)) \<rparr>"

definition example_doc :: "string \<Rightarrow> jsval" where
  "example_doc i = Object [(''_id'', String i), (''type'', String ''article'')]"

definition example_docs :: "jsval list" where
  "example_docs = [example_doc ''a'', example_doc ''b'', example_doc ''c'']"

text \<open>A store that answers every query with the three documents, in this order.\<close>

definition example_db :: database where
  "example_db =
     \<lparr> find_toArray = (\<lambda>q. (Null, example_docs)),
       find_count = (\<lambda>q. (Null, Number (Fin 3))),
       db_distinct = (\<lambda>property criteria. (Null, Array [])) \<rparr>"

text \<open>A store whose every answer is an error.\<close>

definition failing_db :: database where
  "failing_db =
     \<lparr> find_toArray = (\<lambda>q. (Error ''store unavailable'', [])),
       find_count = (\<lambda>q. (Error ''store unavailable'', Undefined)),
       db_distinct = (\<lambda>property criteria. (Error ''store unavailable'', Undefined)) \<rparr>"

text \<open>
  A filter added by a caller: \<open>addFilter('strict', { finalize: function() { throw ... } })\<close>.
\<close>

definition strict_filter :: filter_def where
  "strict_filter =
     (simple_filter ''strict'' Undefined)
       \<lparr>finalize_fn := Finalize0 (\<lambda>c. (Inl (Error ''strict: bad value''), c))\<rparr>"

text \<open>The same failure in an \<open>after\<close> function without a callback.\<close>

definition strict_after_filter :: filter_def where
  "strict_after_filter =
     (simple_filter ''strict'' Undefined)
       \<lparr>after_fn := After1 (\<lambda>results c. (Some (Error ''strict: bad value''), results, c))\<rparr>"

text \<open>The value and the error that an operation hands to its caller.\<close>

fun value_of :: "'a outcome \<Rightarrow> 'a option" where
  "value_of (Success x c) = Some x"
| "value_of (Failure e c) = None"
| "value_of (Raised e c) = None"

fun error_of :: "'a outcome \<Rightarrow> jsval option" where
  "error_of (Success x c) = None"
| "error_of (Failure e c) = Some e"
| "error_of (Raised e c) = Some e"

subsection \<open>What is asked of a finalizer that is not among the sources\<close>

text \<open>
  The \<open>finalize\<close> of \<open>autocomplete\<close> is a parameter. Results about a whole finalize pass
  say what they need of it: that, run on a cursor that is not finalized, it leaves the
  cursor so and does not write to the keys named, or that it does not look at the value
  of \<open>trash\<close>.
\<close>

fun task_cursor :: "task_result \<Rightarrow> cursor" where
  "task_cursor (Called err r c) = c"
| "task_cursor (Thrown e c) = c"

definition keeps :: "string set \<Rightarrow> (cursor \<Rightarrow> task_result) \<Rightarrow> bool" where
  "keeps K t =
     (\<forall>c. \<not> finalized c \<longrightarrow>
        \<not> finalized (task_cursor (t c)) \<and>
        (\<forall>k\<in>K. state (task_cursor (t c)) k = state c k))"

definition paging_keys :: "string set" where
  "paging_keys = {''skip'', ''limit'', ''page'', ''perPage''}"

text \<open>
  Two cursors that differ in the value of \<open>trash\<close> alone, \<open>false\<close> in the first and
  \<open>undefined\<close> in the second.
\<close>

definition trash_only :: "cursor \<Rightarrow> cursor \<Rightarrow> bool" where
  "trash_only c1 c2 =
     (finalized c1 = finalized c2 \<and>
      (\<forall>k. k \<noteq> ''trash'' \<longrightarrow> state c1 k = state c2 k) \<and>
      state c1 ''trash'' = Boolean False \<and> state c2 ''trash'' = Undefined)"

fun task_alike :: "task_result \<Rightarrow> task_result \<Rightarrow> bool" where
  "task_alike (Called e1 r1 c1) (Called e2 r2 c2) =
     (e1 = e2 \<and> \<not> finalized c1 \<and> trash_only c1 c2)"
| "task_alike (Thrown e1 c1) (Thrown e2 c2) =
     (e1 = e2 \<and> \<not> finalized c1 \<and> trash_only c1 c2)"
| "task_alike r1 r2 = False"

definition ignores_trash :: "(cursor \<Rightarrow> task_result) \<Rightarrow> bool" where
  "ignores_trash t =
     (\<forall>c1 c2. \<not> finalized c1 \<and> trash_only c1 c2 \<longrightarrow> task_alike (t c1) (t c2))"

text \<open>A task that never asks for the pass to be run again.\<close>

definition never_refinalize :: "(cursor \<Rightarrow> task_result) \<Rightarrow> bool" where
  "never_refinalize t =
     (\<forall>c. case t c of Called err r c' \<Rightarrow> err \<noteq> String ''refinalize'' | Thrown e c' \<Rightarrow> True)"

text \<open>What a finalize pass leaves: whether it succeeded, its error, and a key of the state.\<close>

fun succeeded :: "'a outcome \<Rightarrow> bool" where
  "succeeded (Success x c) = True"
| "succeeded (Failure e c) = False"
| "succeeded (Raised e c) = False"

fun thrown :: "'a outcome \<Rightarrow> bool" where
  "thrown (Success x c) = False"
| "thrown (Failure e c) = False"
| "thrown (Raised e c) = True"

text \<open>
  How a finalization ended: the error, if any, whether it was thrown rather than handed
  to the callback, and the criteria it leaves in the state.
\<close>

definition final_criteria :: "unit outcome \<Rightarrow> jsval option \<times> bool \<times> jsval" where
  "final_criteria out = (error_of out, thrown out, get_state (cursor_of out) ''criteria'')"

text \<open>The cursor after \<open>cursor.trash(false)\<close>.\<close>

definition trash_false :: "env \<Rightarrow> cursor \<Rightarrow> cursor" where
  "trash_false e c = snd (filter_method (trash_filter e) [Boolean False] c)"

subsection \<open>Notions used in the proofs about a finalize pass\<close>

text \<open>
  A task is quiet for a set of keys when, on a cursor that is not finalized, it calls
  back without an error, leaves the cursor unfinalized and keeps the values of the
  keys. Code frames a set of keys when it keeps them and the flag.
\<close>

definition quiet :: "string set \<Rightarrow> (cursor \<Rightarrow> task_result) \<Rightarrow> bool" where
  "quiet K t =
     (\<forall>c. \<not> finalized c \<longrightarrow>
        (\<exists>r c'. t c = Called Null r c' \<and> \<not> finalized c' \<and> (\<forall>k\<in>K. state c' k = state c k)))"

definition frames :: "string set \<Rightarrow> action \<Rightarrow> bool" where
  "frames K f =
     (\<forall>c. \<not> finalized c \<longrightarrow>
        \<not> finalized (snd (f c)) \<and> (\<forall>k\<in>K. state (snd (f c)) k = state c k))"

definition pre_page :: "env \<Rightarrow> filter_def list" where
  "pre_page e = [criteria_filter, addLateCriteria_filter, and_filter, projection_filter,
      defaultSort_filter, sort_filter e, skip_filter e, limit_filter e, perPage_filter]"

definition post_autocomplete :: "env \<Rightarrow> filter_def list" where
  "post_autocomplete e = [search_filter e,
      tag_filter e, tags_filter e, trash_filter e, published_filter e,
      explicitOrder_filter, type_filter, joins_filter e, addUrls_filter e]"

definition page2_perPage10 :: cursor where
  "page2_perPage10 =
     snd (filter_method perPage_filter [Number (Fin 10)]
            (snd (filter_method (page_filter example_env) [Number (Fin 2)] new_cursor)))"

definition page0_perPage10 :: cursor where
  "page0_perPage10 =
     snd (filter_method perPage_filter [Number (Fin 10)]
            (snd (filter_method (page_filter example_env) [Number (Fin 0)] new_cursor)))"

text \<open>The page number and the \<open>skip\<close> and \<open>limit\<close> a finalization leaves.\<close>

definition paging_state :: "unit outcome \<Rightarrow> jsval \<times> jsval \<times> jsval" where
  "paging_state out =
     (get_state (cursor_of out) ''page'', get_state (cursor_of out) ''skip'',
      get_state (cursor_of out) ''limit'')"

definition alike_action :: "action \<Rightarrow> bool" where
  "alike_action f =
     (\<forall>c1 c2. \<not> finalized c1 \<and> trash_only c1 c2 \<longrightarrow>
        fst (f c1) = fst (f c2) \<and> \<not> finalized (snd (f c1)) \<and>
        trash_only (snd (f c1)) (snd (f c2)))"

definition no_error :: "(cursor \<Rightarrow> task_result) \<Rightarrow> bool" where
  "no_error t = (\<forall>c. case t c of Called err r c' \<Rightarrow> err = Null | Thrown e c' \<Rightarrow> True)"

definition pre_autocomplete :: "env \<Rightarrow> filter_def list" where
  "pre_autocomplete e = pre_page e @ [page_filter e, permission_filter e]"

text \<open>
  A clause is conjoined in a criteria object when the object is the clause itself, or
  is \<open>{ $and: [ a, b ] }\<close>, the shape \<open>self.and\<close> builds, with \<open>b\<close> the clause or with the
  clause conjoined in \<open>a\<close>.
\<close>

fun conjoined :: "jsval \<Rightarrow> jsval \<Rightarrow> bool" where
  "conjoined x v =
     (v = x \<or>
      (case v of
         Object [(k, Array [a, b])] \<Rightarrow> k = ''$and'' \<and> (b = x \<or> conjoined x a)
       | _ \<Rightarrow> False))"

declare conjoined.simps [simp del]

text \<open>A task that leaves a conjoined clause in the criteria.\<close>

definition carries :: "jsval \<Rightarrow> (cursor \<Rightarrow> task_result) \<Rightarrow> bool" where
  "carries x t =
     (\<forall>c. \<not> finalized c \<and> conjoined x (state c ''criteria'') \<longrightarrow>
        \<not> finalized (task_cursor (t c)) \<and> conjoined x (state (task_cursor (t c)) ''criteria''))"

definition pre_trash :: "env \<Rightarrow> filter_def list" where
  "pre_trash e = [criteria_filter, addLateCriteria_filter, and_filter, projection_filter,
      defaultSort_filter, sort_filter e, skip_filter e, limit_filter e, perPage_filter,
      page_filter e, permission_filter e, autocomplete_filter e, search_filter e,
      tag_filter e, tags_filter e]"

definition post_trash :: "env \<Rightarrow> filter_def list" where
  "post_trash e = [published_filter e, explicitOrder_filter, type_filter, joins_filter e,
      addUrls_filter e]"

section \<open>Join resolution: \<open>join\<close> of apostrophe-schemas\<close>

text \<open>
  A schema here is a tree: a field of type \<open>array\<close> owns its own schema. Of a field the
  model keeps what \<open>join\<close> reads: its name and type, the nested schema, \<open>ifOnlyOne\<close>,
  \<open>withType\<close>, \<open>withJoins\<close>, \<open>filters\<close>, \<open>hints\<close>, and the property \<open>_arrays\<close> that an
  earlier call of \<open>join\<close> may have left on the object (\<open>join\<close> writes \<open>_dotPath\<close> and
  \<open>_arrays\<close> to the field objects of the schema).
\<close>

datatype jfield =
  JField (jname: string) (jtype: string) (jschema: "jfield list") (ifOnlyOne: bool)
         (withType: string) (withJoins: jsval)
         (jfilters: "(string \<times> jsval) list option") (jhints: "(string \<times> jsval) list option")
         (old_arrays: "string list option")

text \<open>A join of interest: the field, its \<open>_dotPath\<close> and its \<open>_arrays\<close>.\<close>

record join_of_interest =
  jfield_of :: jfield
  dotPath :: string
  arrays_of :: "string list option"

text \<open>\<open>arrays.join('.')\<close>\<close>

fun join_dots :: "string list \<Rightarrow> string" where
  "join_dots [] = []"
| "join_dots [a] = a"
| "join_dots (a # b # bs) = a @ ''.'' @ join_dots (b # bs)"

text \<open>
  \<open>self.fieldTypes\<close> as far as \<open>join\<close> reads it: for the name of a registered type,
  whether the type has a \<open>join\<close> function. Reading \<open>.join\<close> of a type that is not
  registered throws.
\<close>

type_synonym field_types = "string \<Rightarrow> bool option"

fun level_joins ::
  "field_types \<Rightarrow> nat \<Rightarrow> string list \<Rightarrow> jfield list \<Rightarrow> jsval + join_of_interest list" where
  "level_joins ft n arrays [] = Inr []"
| "level_joins ft n arrays (f # fs) =
     (case ft (jtype f) of
        None \<Rightarrow> Inl (Error ''Cannot read property join of undefined'')
      | Some has_join \<Rightarrow>
          (case level_joins ft n arrays fs of
             Inl e \<Rightarrow> Inl e
           | Inr js \<Rightarrow>
               if has_join then
                 Inr (\<lparr> jfield_of = f,
                        dotPath = (if arrays = [] then jname f
                                   else join_dots arrays @ ''.'' @ jname f),
                        arrays_of = (if 1 < n \<and> ifOnlyOne f then old_arrays f
                                     else Some arrays) \<rparr> # js)
               else Inr js))"

text \<open>
  \<open>findJoins\<close>, with \<open>n\<close> the number of objects: the joins of this level, then those of
  the schemas of the array fields, in the order of the fields.
\<close>

function findJoins ::
  "field_types \<Rightarrow> nat \<Rightarrow> string list \<Rightarrow> jfield list \<Rightarrow> jsval + join_of_interest list"
and nested_joins ::
  "field_types \<Rightarrow> nat \<Rightarrow> string list \<Rightarrow> jfield list \<Rightarrow> jsval + join_of_interest list" where
  "findJoins ft n arrays schema =
     (case level_joins ft n arrays schema of
        Inl e \<Rightarrow> Inl e
      | Inr js \<Rightarrow>
          (case nested_joins ft n arrays schema of
             Inl e \<Rightarrow> Inl e
           | Inr rest \<Rightarrow> Inr (js @ rest)))"
| "nested_joins ft n arrays [] = Inr []"
| "nested_joins ft n arrays (f # fs) =
     (if jtype f = ''array'' then
        (case findJoins ft n (arrays @ [jname f]) (jschema f) of
           Inl e \<Rightarrow> Inl e
         | Inr js \<Rightarrow>
             (case nested_joins ft n arrays fs of
                Inl e \<Rightarrow> Inl e
              | Inr rest \<Rightarrow> Inr (js @ rest)))
      else nested_joins ft n arrays fs)"
  by pat_completeness auto
termination
  apply (relation "measure (\<lambda>x. case x of
          Inl (ft, n, arrays, schema) \<Rightarrow> 2 * size_list size schema + 1
        | Inr (ft, n, arrays, schema) \<Rightarrow> 2 * size_list size schema)")
    apply auto
  subgoal for f fs by (cases f) auto
  done

text \<open>
  The \<open>withJoins\<close> argument: \<open>false\<close>, an array of dot paths, or anything else (absent,
  \<open>null\<close>, \<open>undefined\<close>).
\<close>

datatype join_selector = NoJoins | OnlyJoins "string list" | ConfiguredJoins

text \<open>
  \<open>obj[key]\<close> in full. The property is one of the object's own, or else what the
  parameter \<open>inherited\<close> gives for the value and the key: a property inherited from a
  prototype, a built-in property of a string or of an array, or \<open>undefined\<close>.
\<close>

definition get_member :: "(jsval \<Rightarrow> string \<Rightarrow> jsval) \<Rightarrow> jsval \<Rightarrow> string \<Rightarrow> jsval" where
  "get_member inherited v k =
     (case v of
        Object kvs \<Rightarrow> (case map_of kvs k of Some x \<Rightarrow> x | None \<Rightarrow> inherited v k)
      | _ \<Rightarrow> inherited v k)"

text \<open>
  \<open>withJoinsNext\<close> is a plain object, \<open>{}\<close>, used as a map from a \<open>_dotPath\<close> to the
  selector for the next level. The model keeps its own properties and, once an
  assignment to \<open>__proto__\<close> has replaced it, its prototype. A path that is not a
  property of its own reads through the prototype.
\<close>

record joins_next =
  own_next :: "(string \<times> jsval) list"
  proto_next :: "jsval option"

definition empty_next :: joins_next where
  "empty_next = \<lparr> own_next = [], proto_next = None \<rparr>"

definition read_next :: "(jsval \<Rightarrow> string \<Rightarrow> jsval) \<Rightarrow> joins_next \<Rightarrow> string \<Rightarrow> jsval" where
  "read_next inherited nx dp =
     (case map_of (own_next nx) dp of
        Some v \<Rightarrow> v
      | None \<Rightarrow>
          (case proto_next nx of
             None \<Rightarrow> inherited (Object (own_next nx)) dp
           | Some p \<Rightarrow> if dp = ''__proto__'' then p else get_member inherited p dp))"

text \<open>
  \<open>withJoinsNext[dp] = v\<close>. An assignment to \<open>__proto__\<close> makes an object, an array or
  an error the prototype, and does nothing with any other value that the code assigns
  (an empty array or a truthy value).
\<close>

definition write_next :: "string \<Rightarrow> jsval \<Rightarrow> joins_next \<Rightarrow> joins_next" where
  "write_next dp v nx =
     (if dp = ''__proto__'' then
        (case v of
           Object kvs \<Rightarrow> nx\<lparr>proto_next := Some v\<rparr>
         | Array xs \<Rightarrow> nx\<lparr>proto_next := Some v\<rparr>
         | Error m \<Rightarrow> nx\<lparr>proto_next := Some v\<rparr>
         | _ \<Rightarrow> nx)
      else nx\<lparr>own_next := put_key dp v (own_next nx)\<rparr>)"

text \<open>
  \<open>withJoinsNext[dp].push(rest)\<close>, where \<open>withJoinsNext[dp]\<close> has just been read as the
  array \<open>xs\<close>. The array is changed in place: it is the value of a property of
  \<open>withJoinsNext\<close>, or its prototype. An array that reached \<open>withJoinsNext\<close> by
  inheritance only lies outside of this state.
\<close>

definition push_next :: "string \<Rightarrow> jsval list \<Rightarrow> string \<Rightarrow> joins_next \<Rightarrow> joins_next" where
  "push_next dp xs rest nx =
     (if map_of (own_next nx) dp \<noteq> None
      then nx\<lparr>own_next := put_key dp (Array (xs @ [String rest])) (own_next nx)\<rparr>
      else if dp = ''__proto__'' \<and> proto_next nx \<noteq> None
      then nx\<lparr>proto_next := Some (Array (xs @ [String rest]))\<rparr>
      else nx)"

text \<open>
  The requested paths against the \<open>_dotPath\<close> of one join: a path equal to it selects the
  join; a path that starts with it and a dot selects the join and has its remainder
  pushed for the next level. \<open>push\<close> on a value that is not an array throws.
\<close>

fun match_names ::
  "(jsval \<Rightarrow> string \<Rightarrow> jsval) \<Rightarrow> string \<Rightarrow> string list \<Rightarrow> bool \<times> joins_next \<Rightarrow>
   jsval + bool \<times> joins_next" where
  "match_names inherited dp [] st = Inr st"
| "match_names inherited dp (withJoinName # rest) st =
     (case st of (winner, nx) \<Rightarrow>
        if withJoinName = dp then match_names inherited dp rest (True, nx)
        else if take (length dp + 1) withJoinName = dp @ ''.'' then
          (let nx = (if \<not> truthy (read_next inherited nx dp)
                     then write_next dp (Array []) nx else nx)
           in case read_next inherited nx dp of
                Array xs \<Rightarrow>
                  match_names inherited dp rest
                    (True, push_next dp xs (drop (length dp + 1) withJoinName) nx)
              | _ \<Rightarrow> Inl (Error ''withJoinsNext[dotPath].push is not a function''))
        else match_names inherited dp rest (winner, nx))"

text \<open>The filter over the joins when \<open>withJoins\<close> is an array.\<close>

fun select_joins ::
  "(jsval \<Rightarrow> string \<Rightarrow> jsval) \<Rightarrow> string list \<Rightarrow> join_of_interest list \<Rightarrow> joins_next \<Rightarrow>
   jsval + join_of_interest list \<times> joins_next" where
  "select_joins inherited names [] nx = Inr ([], nx)"
| "select_joins inherited names (j # js) nx =
     (case match_names inherited (dotPath j) names (False, nx) of
        Inl e \<Rightarrow> Inl e
      | Inr (winner, nx) \<Rightarrow>
          (case select_joins inherited names js nx of
             Inl e \<Rightarrow> Inl e
           | Inr (kept, nx) \<Rightarrow> Inr (if winner then j # kept else kept, nx)))"

text \<open>Without an array, every join is kept and passes its own \<open>withJoins\<close> on.\<close>

fun configured_joins :: "join_of_interest list \<Rightarrow> joins_next \<Rightarrow> joins_next" where
  "configured_joins [] nx = nx"
| "configured_joins (j # js) nx =
     configured_joins js
       (if truthy (withJoins (jfield_of j))
        then write_next (dotPath j) (withJoins (jfield_of j)) nx else nx)"

text \<open>
  \<open>findObjectsInArrays\<close>. Reading a property of \<open>null\<close> or \<open>undefined\<close> throws;
  \<open>concat\<close> appends the elements of an array and any other truthy value as it is.
\<close>

fun concat_value :: "jsval \<Rightarrow> jsval list" where
  "concat_value (Array xs) = xs"
| "concat_value v = (if truthy v then [v] else [])"

fun gather :: "(jsval \<Rightarrow> string \<Rightarrow> jsval) \<Rightarrow> string \<Rightarrow> jsval list \<Rightarrow> jsval + jsval list" where
  "gather inherited a [] = Inr []"
| "gather inherited a (obj # objs) =
     (if obj = Null \<or> obj = Undefined then Inl (Error ''Cannot read property of null'')
      else (case gather inherited a objs of
              Inl e \<Rightarrow> Inl e
            | Inr rest \<Rightarrow> Inr (concat_value (get_member inherited obj a) @ rest)))"

fun descend ::
  "(jsval \<Rightarrow> string \<Rightarrow> jsval) \<Rightarrow> jsval list \<Rightarrow> string list \<Rightarrow> jsval + jsval list" where
  "descend inherited objects [] = Inr objects"
| "descend inherited objects (a # as) =
     (case gather inherited a objects of
        Inl e \<Rightarrow> Inl e
      | Inr objs \<Rightarrow> descend inherited objs as)"

definition findObjectsInArrays ::
  "(jsval \<Rightarrow> string \<Rightarrow> jsval) \<Rightarrow> jsval list \<Rightarrow> string list option \<Rightarrow> jsval + jsval list" where
  "findObjectsInArrays inherited objects arrays =
     (case arrays of None \<Rightarrow> Inr [] | Some as \<Rightarrow> descend inherited objects as)"

text \<open>
  The call of the \<open>join\<close> function of a field type, which is given the field, the
  objects to join from and the options. What it does, fetching from the store included,
  is not in the sources: the model records the calls and takes the error value of each
  from a parameter.
\<close>

record join_call =
  call_field :: jfield
  call_dotPath :: string
  call_objects :: "jsval list"
  call_filters :: "(string \<times> jsval) list"
  call_hints :: "(string \<times> jsval) list"

text \<open>\<open>_.extend(target, source)\<close> on objects kept as association lists.\<close>

definition extend :: "(string \<times> jsval) list \<Rightarrow> (string \<times> jsval) list option \<Rightarrow> (string \<times> jsval) list" where
  "extend target source =
     (case source of
        None \<Rightarrow> target
      | Some kvs \<Rightarrow> foldl (\<lambda>acc kv. put_key (fst kv) (snd kv) acc) target kvs)"

text \<open>
  What \<open>join\<close> does: the calls it made, in order, and how it ended, with the value given
  to the callback or with an exception.
\<close>

datatype join_end = JoinCallback jsval | JoinRaised jsval

fun each_join ::
  "(jsval \<Rightarrow> string \<Rightarrow> jsval) \<Rightarrow> (string \<Rightarrow> bool) \<Rightarrow> (join_call \<Rightarrow> jsval) \<Rightarrow> jsval list \<Rightarrow>
   joins_next \<Rightarrow> join_of_interest list \<Rightarrow> join_call list \<times> join_end" where
  "each_join inherited has_manager driver objects nx [] = ([], JoinCallback Null)"
| "each_join inherited has_manager driver objects nx (j # js) =
     (case findObjectsInArrays inherited objects (arrays_of j) of
        Inl e \<Rightarrow> ([], JoinRaised e)
      | Inr objs \<Rightarrow>
          if take 1 (jname (jfield_of j)) \<noteq> ''_'' then
            ([], JoinCallback (Error (''Joins should always be given names beginning with an underscore (_). Otherwise we would waste space in your database storing the results statically. There would also be a conflict with the array field withJoins syntax. Join name is: '' @ dotPath j)))
          else if \<not> has_manager (withType (jfield_of j)) then
            ([], JoinCallback (Error (''I cannot find the instance type '' @ withType (jfield_of j))))
          else
            (let call = \<lparr> call_field = jfield_of j,
                          call_dotPath = dotPath j,
                          call_objects = objs,
                          call_filters = extend [(''joins'', js_or (read_next inherited nx (dotPath j))
                                                              (Boolean False))]
                                           (jfilters (jfield_of j)),
                          call_hints = extend [] (jhints (jfield_of j)) \<rparr>;
                 err = driver call
             in if truthy err then ([call], JoinCallback err)
                else (case each_join inherited has_manager driver objects nx js of
                        (calls, ending) \<Rightarrow> (call # calls, ending))))"

text \<open>\<open>self.join\<close>, for an array of objects.\<close>

definition join ::
  "(jsval \<Rightarrow> string \<Rightarrow> jsval) \<Rightarrow> field_types \<Rightarrow> (string \<Rightarrow> bool) \<Rightarrow> (join_call \<Rightarrow> jsval) \<Rightarrow>
   jfield list \<Rightarrow> jsval list \<Rightarrow> join_selector \<Rightarrow> join_call list \<times> join_end" where
  "join inherited ft has_manager driver schema objects selector =
     (if selector = NoJoins then ([], JoinCallback Null)
      else if objects = [] then ([], JoinCallback Null)
      else
        (case findJoins ft (length objects) [] schema of
           Inl e \<Rightarrow> ([], JoinRaised e)
         | Inr joins \<Rightarrow>
             (case (case selector of
                      OnlyJoins names \<Rightarrow> select_joins inherited names joins empty_next
                    | _ \<Rightarrow> Inr (joins, configured_joins joins empty_next)) of
                Inl e \<Rightarrow> ([], JoinRaised e)
              | Inr (joins, nx) \<Rightarrow> each_join inherited has_manager driver objects nx joins)))"

subsection \<open>Example schema with two joins\<close>









section \<open>Notions used in the proofs about the field order\<close>

text \<open>
  The ordering pass copies a field when its group has a truthy name; \<open>gk\<close> is that name
  (the empty string when the field has no group).
\<close>

definition kept :: "heap \<Rightarrow> addr \<Rightarrow> bool" where
  "kept h a = (case group_name h a of None \<Rightarrow> False | Some n \<Rightarrow> n \<noteq> [])"

definition gk :: "heap \<Rightarrow> addr \<Rightarrow> string" where
  "gk h a = (case group_name h a of None \<Rightarrow> [] | Some n \<Rightarrow> n)"

text \<open>
  The index kept for a group name, for a list sorted by rank: the number of fields whose
  rank is not greater.
\<close>

definition indexed :: "(string \<Rightarrow> nat) \<Rightarrow> heap \<Rightarrow> addr list \<Rightarrow> (string \<rightharpoonup> nat) \<Rightarrow> bool" where
  "indexed r h acc idx =
     (\<forall>n. idx n = (if n \<in> gk h ` set acc
                    then Some (length (filter (\<lambda>a. r (gk h a) \<le> r n) acc)) else None))"

text \<open>
  The state of the assignment loop while the group at position \<open>b\<close> of the list of
  group names \<open>gn\<close> is being handled: no field object is listed twice, the names in
  \<open>newSchema\<close> are distinct, and \<open>newSchema\<close> is ordered by the position of the group of
  each field.
\<close>

definition assigning :: "string list \<Rightarrow> nat \<Rightarrow> assign_state \<Rightarrow> bool" where
  "assigning gn b st =
     (case st of (h, s, ns) \<Rightarrow>
        distinct (ns @ s) \<and> distinct (map (\<lambda>a. name (h a)) ns) \<and>
        sorted (map (\<lambda>a. pos gn (gk h a)) ns) \<and>
        (\<forall>a\<in>set ns. fgroup (h a) \<noteq> None \<and> gk h a \<in> set gn \<and> pos gn (gk h a) \<le> b))"

text \<open>
  Between two stores, only the groups of the objects at the addresses in \<open>S\<close> differ.
\<close>

definition group_only :: "addr set \<Rightarrow> heap \<Rightarrow> heap \<Rightarrow> bool" where
  "group_only S h h' =
     (\<forall>a. (a \<notin> S \<longrightarrow> h' a = h a) \<and> (\<exists>x. h' a = (h a)\<lparr>fgroup := x\<rparr>))"

section \<open>Example: a field with a template and a required name\<close>



section \<open>Composition from an existing schema: \<open>refine\<close> of apostrophe-schemas\<close>

text \<open>
  \<open>refine\<close> starts with \<open>_.cloneDeep(schema)\<close>: every object of the array is copied to a
  new object, and an object listed twice is copied once. New objects are given the
  addresses from \<open>fresh\<close> on, the first address not in use; the copy of an object of the
  array lives at \<open>fresh\<close> plus the position of its first occurrence. A field record holds
  its group descriptor and its choices as values, so that copying the record copies
  them too.
\<close>

definition clone_addr :: "addr \<Rightarrow> addr list \<Rightarrow> addr \<Rightarrow> addr" where
  "clone_addr fresh schema a = fresh + pos schema a"

definition cloneDeep :: "addr \<Rightarrow> heap \<Rightarrow> addr list \<Rightarrow> heap \<times> addr list" where
  "cloneDeep fresh h schema =
     (foldl (\<lambda>h' a. h'(clone_addr fresh schema a := h a)) h schema,
      map (clone_addr fresh schema) schema)"

text \<open>
  The loop of \<open>refine\<close> that rebuilds \<open>arrangeFields\<close> from the groups of the fields: a
  field with a group is pushed to the group of that name in \<open>oldArrangeFields\<close>, which is
  first created, as a clone of the field's group with no fields, if it is not there.
\<close>

definition old_group :: "descriptor \<Rightarrow> group" where
  "old_group d = \<lparr> gname = dname d, glabel = dlabel d, gfields = [], glast = dlast d \<rparr>"

fun push_field :: "string \<Rightarrow> string \<Rightarrow> group list \<Rightarrow> group list" where
  "push_field gn fname [] = []"
| "push_field gn fname (g # gs) =
     (if gname g = gn then g\<lparr>gfields := gfields g @ [fname]\<rparr> # gs
      else g # push_field gn fname gs)"

definition old_arrange_step :: "heap \<Rightarrow> group list \<Rightarrow> addr \<Rightarrow> group list" where
  "old_arrange_step h old a =
     (case fgroup (h a) of
        None \<Rightarrow> old
      | Some d \<Rightarrow>
          (let old = (case find (\<lambda>g. gname g = dname d) old of
                        None \<Rightarrow> old @ [old_group d]
                      | Some g \<Rightarrow> old)
           in push_field (dname d) (name (h a)) old))"

definition oldArrangeFields :: "heap \<Rightarrow> addr list \<Rightarrow> group list" where
  "oldArrangeFields h schema = foldl (old_arrange_step h) [] schema"

text \<open>
  \<open>oldArrangeFields.concat(options.arrangeFields || [])\<close>. When the schema has groups and
  the caller's \<open>arrangeFields\<close> is a non-empty list of names, the array mixes group
  objects and strings; \<open>arrange\<close> has no such value, and the result is \<open>None\<close>.
\<close>

definition concat_arrange :: "group list \<Rightarrow> arrange option \<Rightarrow> arrange option" where
  "concat_arrange old arr =
     (case arr of
        None \<Rightarrow> Some (ArrangeGroups old)
      | Some (ArrangeGroups gs) \<Rightarrow> Some (ArrangeGroups (old @ gs))
      | Some (ArrangeNames ns) \<Rightarrow>
          if old = [] then Some (ArrangeNames ns)
          else if ns = [] then Some (ArrangeGroups old)
          else None)"

text \<open>
  \<open>refine\<close>: \<open>compose\<close> on the copies followed by the caller's \<open>addFields\<close>. The result is
  \<open>None\<close> only where \<open>concat_arrange\<close> is.
\<close>

definition refine ::
  "addr \<Rightarrow> default_group option \<Rightarrow> addr list \<Rightarrow> compose_options \<Rightarrow> heap \<Rightarrow>
   (heap \<times> (compose_error + addr list)) option" where
  "refine fresh dg schema opts h =
     (case cloneDeep fresh h schema of
        (h, schema) \<Rightarrow>
          (let adds = schema @ (case addFields opts of None \<Rightarrow> [] | Some fs \<Rightarrow> fs)
           in case concat_arrange (oldArrangeFields h schema) (arrangeFields opts) of
                None \<Rightarrow> None
              | Some arr \<Rightarrow>
                  Some (compose dg (opts\<lparr>addFields := Some adds, arrangeFields := Some arr\<rparr>) h)))"

section \<open>Properties\<close>

subsection \<open>Facts about single fields\<close>

lemma select_ok_fgroup [simp]: "select_ok (f\<lparr>fgroup := g\<rparr>) = select_ok f"
  by (simp add: select_ok_def)

lemma select_ok_install_partial [simp]: "select_ok (install_partial f) = select_ok f"
  by (simp add: select_ok_def install_partial_def split: option.splits)

lemma name_install_partial [simp]: "name (install_partial f) = name f"
  by (simp add: install_partial_def split: option.splits)

lemma fgroup_install_partial [simp]: "fgroup (install_partial f) = fgroup f"
  by (simp add: install_partial_def split: option.splits)

lemma or_else_nonempty: "d \<noteq> [] \<Longrightarrow> or_else s d \<noteq> []"
  by (cases s) auto

subsection \<open>Adding a field twice: the last one wins\<close>

text \<open>
  Claim C6. Compose with \<open>addFields\<close> equal to \<open>[A, B]\<close> followed by \<open>[B']\<close>, where \<open>A\<close> and
  \<open>B\<close> have different names and \<open>B'\<close> has the name of \<open>B\<close>, and with no other option:
  the schema returned is \<open>[A, B']\<close>, that is, \<open>B'\<close> has replaced \<open>B\<close> and comes after \<open>A\<close>.
  This holds for every default group override. The fields are taken to pass the check of
  select fields, since \<open>compose\<close> throws otherwise.
\<close>

theorem compose_addFields_last_wins:
  assumes "name (h a) \<noteq> name (h b)" and "name (h b') = name (h b)"
    and "select_ok (h a)" and "select_ok (h b')"
  shows "snd (compose dg (only_addFields ([a, b] @ [b'])) h) = Inr [a, b']"
proof -
  have ab: "a \<noteq> b" "a \<noteq> b'" using assms by auto
  have ne: "or_else (case dg of None \<Rightarrow> None | Some d \<Rightarrow> dg_name d) ''default'' \<noteq> []"
    by (rule or_else_nonempty) simp
  show ?thesis
    using assms ab ne
    by (simp add: compose_def before_ordering_def only_addFields_def working_fields_def apply_addFields_def
        add_field_def apply_removeFields_def apply_requireFields_def apply_alterFields_def
        default_group_of_def initial_groups_def dedupe_groups_def regroup_def splice_in_def
        grouped_fields_def assign_group_def assign_field_def assign_leftover_def
        stabilize_def stabilize_step_def group_name_def strip_def default_last_def
        split: option.splits)
qed

theorem compose_addFields_last_wins_witness:
  "name (example_heap 0) \<noteq> name (example_heap 1)
   \<and> name (example_heap 3) = name (example_heap 1)
   \<and> select_ok (example_heap 0) \<and> select_ok (example_heap 3)
   \<and> snd (compose None (only_addFields ([0, 1] @ [3])) example_heap) = Inr [0, 3]"
proof -
  have n: "name (example_heap 0) \<noteq> name (example_heap 1)"
    and m: "name (example_heap 3) = name (example_heap 1)"
    and s0: "select_ok (example_heap 0)" and s3: "select_ok (example_heap 3)"
    by (simp_all add: example_heap_def plain_field_def select_ok_def)
  from compose_addFields_last_wins [OF n m s0 s3, of None] n m s0 s3
  show ?thesis by simp
qed

subsection \<open>The default group under an override of its name\<close>

text \<open>
  Claim C4. With the default group renamed to \<open>basics\<close>, \<open>compose\<close> returns
  \<open>title\<close>, \<open>tags\<close>, \<open>body\<close>: the two fields of the default group \<open>basics\<close> come before
  \<open>body\<close>, a field of the group \<open>extras\<close>. The test that moves the default group to the
  end compares the group name with the literal \<open>default\<close>, not with the configured name.
\<close>

theorem compose_override_default_not_last:
  "(case compose basics_override basics_options example_heap of
      (h, r) \<Rightarrow> (r, map (group_name h) [0, 2, 1]))
   = (Inr [0, 2, 1], [Some ''basics'', Some ''basics'', Some ''extras''])"
  by (simp add: compose_def before_ordering_def basics_override_def basics_options_def example_heap_def
      plain_field_def plain_group_def working_fields_def apply_addFields_def
      add_field_def apply_removeFields_def apply_requireFields_def apply_alterFields_def
      default_group_of_def initial_groups_def dedupe_groups_def regroup_def splice_in_def
      grouped_fields_def assign_group_def assign_field_def assign_leftover_def
      stabilize_def stabilize_step_def group_name_def strip_def default_last_def
      install_partial_def select_ok_def)

subsection \<open>An exception thrown by a finalizer\<close>

text \<open>
  Claim C1. A cursor is given a filter whose \<open>finalize\<close> takes no callback and throws. The
  error is not delivered: \<open>toArray\<close>, \<open>toObject\<close>, \<open>toCount\<close> and \<open>toDistinct\<close> all call
  back without an error, and \<open>toArray\<close> returns the documents of the store. The wrapper
  built by \<open>addFilter\<close> hands the exception to \<open>callback\<close> as the result, with \<open>null\<close> as
  the error. The same exception thrown by an \<open>after\<close> function is delivered as the error.
\<close>

theorem finalizer_exception_not_delivered:
  "map_option (\<lambda>out. (error_of out, value_of out))
     (toArray 1 (addFilter strict_filter (builtin_filters example_env)) example_db new_cursor)
     = Some (None, Some example_docs)
   \<and> map_option error_of
       (toObject 1 (addFilter strict_filter (builtin_filters example_env)) example_db new_cursor)
     = Some None
   \<and> map_option error_of
       (toCount 1 (coerce example_env)
          (addFilter strict_filter (builtin_filters example_env)) example_db new_cursor)
     = Some None
   \<and> map_option error_of
       (toDistinct 1 (addFilter strict_filter (builtin_filters example_env)) example_db
          (String ''type'') new_cursor)
     = Some None
   \<and> map_option (\<lambda>out. (error_of out, value_of out))
       (toArray 1 (addFilter strict_after_filter (builtin_filters example_env)) example_db
          new_cursor)
     = Some (Some (Error ''strict: bad value''), None)"
  by code_simp

subsection \<open>Results in an explicit order\<close>

text \<open>
  Claim C2. After \<open>explicitOrder(['c', 'a'])\<close>, on a store holding the documents \<open>a\<close>, \<open>b\<close>
  and \<open>c\<close>, \<open>toArray\<close> returns \<open>a\<close>, \<open>b\<close>, \<open>c\<close>: nothing is dropped and nothing is reordered.
  \<open>mongoToArray\<close> gives the driver its own callback as the first argument, so the
  documents go to the caller as the store returned them; the function that was to do the
  reordering is the second argument, and would throw if it were called.
\<close>

theorem explicitOrder_not_applied:
  "map_option (\<lambda>out. (error_of out, value_of out))
     (toArray 1 (builtin_filters example_env) example_db
        (snd (filter_method explicitOrder_filter [Array [String ''c'', String ''a'']]
                new_cursor)))
     = Some (None, Some [example_doc ''a'', example_doc ''b'', example_doc ''c''])
   \<and> explicit_order_handler
         (snd (filter_method explicitOrder_filter [Array [String ''c'', String ''a'']]
                 new_cursor))
         (\<lambda>er. er) (Null, example_docs)
       = Throws (Error ''idProperty is not defined'')"
  by code_simp

subsection \<open>The limit after \<open>toObject\<close>\<close>

text \<open>
  Claim C9. After \<open>limit(25)\<close>, \<open>toObject\<close> on a store that answers with an error hands
  the error to the caller and leaves the limit of the cursor at 1: the callback returns
  on the error before the line that puts the former limit back. On a store that answers
  with documents the limit is 25 again afterwards.
\<close>

theorem toObject_error_leaves_limit_1:
  "map_option (\<lambda>out. (error_of out, get_state (cursor_of out) ''limit''))
     (toObject 1 (builtin_filters example_env) failing_db
        (snd (filter_method (limit_filter example_env) [Number (Fin 25)] new_cursor)))
     = Some (Some (Error ''store unavailable''), Number (Fin 1))
   \<and> map_option (\<lambda>out. (value_of out, get_state (cursor_of out) ''limit''))
       (toObject 1 (builtin_filters example_env) example_db
          (snd (filter_method (limit_filter example_env) [Number (Fin 25)] new_cursor)))
     = Some (Some (example_doc ''a''), Number (Fin 25))"
  by code_simp

subsection \<open>Paging: \<open>page\<close> and \<open>perPage\<close>\<close>

lemma series_append:
  "series (ts @ us) c =
     (case series ts c of
        Thrown e c' \<Rightarrow> Thrown e c'
      | Called err r c' \<Rightarrow> if truthy err then Called err Undefined c' else series us c')"
  by (induction ts arbitrary: c) (auto split: task_result.splits)

lemma quiet_keeps: "quiet K t \<Longrightarrow> keeps K t"
  unfolding quiet_def keeps_def by fastforce

lemma keeps_series: "list_all (keeps K) ts \<Longrightarrow> keeps K (series ts)"
proof (induction ts)
  case Nil
  then show ?case by (simp add: keeps_def)
next
  case (Cons t ts)
  then have t: "keeps K t" and ts: "keeps K (series ts)" by simp_all
  show ?case
    unfolding keeps_def
  proof (intro allI impI)
    fix c :: cursor assume nf: "\<not> finalized c"
    from t nf have 1: "\<not> finalized (task_cursor (t c))"
      "\<forall>k\<in>K. state (task_cursor (t c)) k = state c k" by (auto simp: keeps_def)
    show "\<not> finalized (task_cursor (series (t # ts) c)) \<and>
          (\<forall>k\<in>K. state (task_cursor (series (t # ts) c)) k = state c k)"
    proof (cases "t c")
      case (Called err r c')
      with 1 ts show ?thesis by (auto simp: keeps_def)
    next
      case (Thrown e c')
      with 1 show ?thesis by simp
    qed
  qed
qed

lemma quiet_series: "list_all (quiet K) ts \<Longrightarrow> quiet K (series ts)"
proof (induction ts)
  case Nil
  then show ?case by (simp add: quiet_def)
next
  case (Cons t ts)
  then have t: "quiet K t" and ts: "quiet K (series ts)" by simp_all
  show ?case
    unfolding quiet_def
  proof (intro allI impI)
    fix c :: cursor assume nf: "\<not> finalized c"
    from t nf obtain r c' where 1: "t c = Called Null r c'" "\<not> finalized c'"
      "\<forall>k\<in>K. state c' k = state c k" by (auto simp: quiet_def)
    from ts 1(2) obtain r' c'' where 2: "series ts c' = Called Null r' c''" "\<not> finalized c''"
      "\<forall>k\<in>K. state c'' k = state c' k" by (auto simp: quiet_def)
    from 1 2 show "\<exists>r c'a. series (t # ts) c = Called Null r c'a \<and> \<not> finalized c'a \<and>
        (\<forall>k\<in>K. state c'a k = state c k)" by auto
  qed
qed

lemmas filter_defs = simple_filter_def criteria_filter_def addLateCriteria_filter_def and_filter_def
  projection_filter_def defaultSort_filter_def sort_filter_def skip_filter_def limit_filter_def
  perPage_filter_def page_filter_def permission_filter_def autocomplete_filter_def search_filter_def
  tag_filter_def tags_filter_def trash_filter_def published_filter_def explicitOrder_filter_def
  type_filter_def joins_filter_def addUrls_filter_def

lemmas run_defs = finalizer_def apply_default_def filter_method_def default_set_def returning_def
  set_state_def get_state_def arg_def self_and_def and_set_def

lemma sync_quiet:
  assumes "set_fn d = None" and "finalize_fn d = returning f"
    and "filter_name d \<notin> K \<or> def_value d = Undefined"
    and "frames K f"
  shows "quiet K (finalizer d)"
  unfolding quiet_def
proof (intro allI impI)
  fix c :: cursor assume nf: "\<not> finalized c"
  define c0 where "c0 = (if state c (filter_name d) = Undefined
                         then set_state (filter_name d) (def_value d) c else c)"
  have c0: "\<not> finalized c0" "\<forall>k\<in>K. state c0 k = state c k"
    using nf assms(3) by (auto simp: c0_def set_state_def)
  have ad: "apply_default d c = (None, c0)"
    using nf assms(1)
    by (simp add: apply_default_def filter_method_def default_set_def get_state_def arg_def c0_def)
  from assms(4) c0 have f: "\<not> finalized (snd (f c0))" "\<forall>k\<in>K. state (snd (f c0)) k = state c k"
    by (auto simp: frames_def)
  obtain x c' where fc: "f c0 = (x, c')" by (cases "f c0")
  with f have c': "\<not> finalized c'" "\<forall>k\<in>K. state c' k = state c k" by auto
  show "\<exists>r c'. finalizer d c = Called Null r c' \<and> \<not> finalized c' \<and> (\<forall>k\<in>K. state c' k = state c k)"
    using ad fc c' assms(2)
    by (cases x) (auto simp: finalizer_def returning_def)
qed

lemma plain_quiet:
  assumes "set_fn d = None" and "finalize_fn d = NoFinalize"
    and "filter_name d \<notin> K \<or> def_value d = Undefined"
  shows "quiet K (finalizer d)"
  using assms
  by (auto simp: quiet_def finalizer_def apply_default_def filter_method_def default_set_def
      get_state_def set_state_def arg_def)

lemma self_and_frame:
  assumes "\<not> finalized c"
  shows "fst (self_and x c) = None \<and> \<not> finalized (snd (self_and x c)) \<and>
         (\<forall>k. k \<noteq> ''criteria'' \<longrightarrow> state (snd (self_and x c)) k = state c k)"
  using assms
  by (simp add: self_and_def and_set_def and_filter_def criteria_filter_def simple_filter_def
      filter_method_def default_set_def set_state_def get_state_def arg_def Let_def)

lemma self_and_state:
  "\<not> finalized c \<Longrightarrow> k \<noteq> ''criteria'' \<Longrightarrow> state (snd (self_and x c)) k = state c k"
  using self_and_frame [of c x] by auto

lemma self_and_finalized: "\<not> finalized c \<Longrightarrow> \<not> finalized (snd (self_and x c))"
  using self_and_frame [of c x] by auto

lemma self_and_fst: "\<not> finalized c \<Longrightarrow> fst (self_and x c) = None"
  using self_and_frame [of c x] by auto

lemmas self_and_simps = self_and_state self_and_finalized self_and_fst

lemma in_not: "k \<in> K \<Longrightarrow> x \<notin> K \<Longrightarrow> k \<noteq> x"
  by auto

lemma frames_tag: "''criteria'' \<notin> K \<Longrightarrow> frames K tag_finalize"
  unfolding tag_finalize_def Let_def frames_def
  by (auto simp: self_and_simps dest: in_not)

lemma frames_tags: "''criteria'' \<notin> K \<Longrightarrow> frames K tags_finalize"
  unfolding tags_finalize_def Let_def frames_def
  by (auto simp: self_and_simps dest: in_not)

lemma frames_type: "''criteria'' \<notin> K \<Longrightarrow> frames K type_finalize"
  unfolding type_finalize_def Let_def frames_def
  by (auto simp: self_and_simps dest: in_not)

lemma frames_trash: "''criteria'' \<notin> K \<Longrightarrow> frames K trash_finalize"
  unfolding trash_finalize_def Let_def frames_def
  by (auto simp: self_and_simps dest: in_not)

lemma frames_published: "''criteria'' \<notin> K \<Longrightarrow> frames K published_finalize"
  unfolding published_finalize_def Let_def frames_def
  by (auto simp: self_and_simps dest: in_not)

lemma frames_search: "''criteria'' \<notin> K \<Longrightarrow> frames K (search_finalize e)"
  unfolding search_finalize_def Let_def frames_def
  by (auto simp: self_and_simps dest: in_not)

lemma sort_finalize_frame:
  "finalized (snd (sort_finalize e c)) = finalized c \<and>
   (\<forall>k. k \<noteq> ''sort'' \<and> k \<noteq> ''sortMongo'' \<longrightarrow> state (snd (sort_finalize e c)) k = state c k)"
  unfolding sort_finalize_def Let_def
  by (simp add: set_state_def split: option.splits)

lemma frames_sort:
  assumes "''sort'' \<notin> K" and "''sortMongo'' \<notin> K"
  shows "frames K (sort_finalize e)"
  unfolding frames_def
proof (intro allI impI conjI ballI)
  fix c :: cursor and k assume "\<not> finalized c"
  then show "\<not> finalized (snd (sort_finalize e c))"
    using sort_finalize_frame [of e c] by simp
next
  fix c :: cursor and k assume "\<not> finalized c" and k: "k \<in> K"
  with assms have "k \<noteq> ''sort''" "k \<noteq> ''sortMongo''" by auto
  then show "state (snd (sort_finalize e c)) k = state c k"
    using sort_finalize_frame [of e c] by blast
qed

lemma frames_projection: "''projection'' \<notin> K \<Longrightarrow> frames K projection_finalize"
  unfolding projection_finalize_def Let_def frames_def
  by (auto simp: set_state_def dest: in_not)

lemma frames_permission: "''criteria'' \<notin> K \<Longrightarrow> frames K (permission_finalize e)"
  unfolding permission_finalize_def Let_def frames_def
  by (auto simp: self_and_simps dest: in_not split: jsval.splits)

lemma paging_notin [simp]:
  "''criteria'' \<notin> paging_keys" "''projection'' \<notin> paging_keys" "''sort'' \<notin> paging_keys"
  "''sortMongo'' \<notin> paging_keys" "''defaultSort'' \<notin> paging_keys"
  "''permission'' \<notin> paging_keys" "''search'' \<notin> paging_keys" "''tag'' \<notin> paging_keys"
  "''tags'' \<notin> paging_keys" "''trash'' \<notin> paging_keys" "''published'' \<notin> paging_keys"
  "''type'' \<notin> paging_keys" "''joins'' \<notin> paging_keys" "''addUrls'' \<notin> paging_keys"
  by (simp_all add: paging_keys_def)

lemma quiet_criteria: "quiet paging_keys (finalizer criteria_filter)"
  by (rule plain_quiet) (simp_all add: criteria_filter_def simple_filter_def)

lemma quiet_addLateCriteria: "quiet paging_keys (finalizer addLateCriteria_filter)"
  by (auto simp: quiet_def paging_keys_def filter_defs run_defs addLateCriteria_set_def Let_def)

lemma quiet_and: "quiet paging_keys (finalizer and_filter)"
  by (auto simp: quiet_def paging_keys_def filter_defs run_defs)

lemma quiet_explicitOrder: "quiet paging_keys (finalizer explicitOrder_filter)"
  by (auto simp: quiet_def paging_keys_def filter_defs run_defs explicitOrder_set_def)

lemma quiet_projection: "quiet paging_keys (finalizer projection_filter)"
  by (rule sync_quiet [where f = projection_finalize])
     (simp_all add: projection_filter_def simple_filter_def frames_projection)

lemma quiet_defaultSort: "quiet paging_keys (finalizer defaultSort_filter)"
  by (rule plain_quiet) (simp_all add: defaultSort_filter_def simple_filter_def)

lemma quiet_sort: "quiet paging_keys (finalizer (sort_filter e))"
  by (rule sync_quiet [where f = "sort_finalize e"])
     (simp_all add: sort_filter_def simple_filter_def frames_sort)

lemma quiet_skip: "quiet paging_keys (finalizer (skip_filter e))"
  by (rule plain_quiet) (simp_all add: skip_filter_def simple_filter_def)

lemma quiet_limit: "quiet paging_keys (finalizer (limit_filter e))"
  by (rule plain_quiet) (simp_all add: limit_filter_def simple_filter_def)

lemma quiet_perPage: "quiet paging_keys (finalizer perPage_filter)"
  by (rule plain_quiet) (simp_all add: perPage_filter_def simple_filter_def)

lemma quiet_permission: "quiet paging_keys (finalizer (permission_filter e))"
  by (rule sync_quiet [where f = "permission_finalize e"])
     (simp_all add: permission_filter_def simple_filter_def frames_permission)

lemma quiet_search: "quiet paging_keys (finalizer (search_filter e))"
  by (rule sync_quiet [where f = "search_finalize e"])
     (simp_all add: search_filter_def simple_filter_def frames_search)

lemma quiet_tag: "quiet paging_keys (finalizer (tag_filter e))"
  by (rule sync_quiet [where f = tag_finalize])
     (simp_all add: tag_filter_def simple_filter_def frames_tag)

lemma quiet_tags: "quiet paging_keys (finalizer (tags_filter e))"
  by (rule sync_quiet [where f = tags_finalize])
     (simp_all add: tags_filter_def simple_filter_def frames_tags)

lemma quiet_trash: "quiet paging_keys (finalizer (trash_filter e))"
  by (rule sync_quiet [where f = trash_finalize])
     (simp_all add: trash_filter_def simple_filter_def frames_trash)

lemma quiet_published: "quiet paging_keys (finalizer (published_filter e))"
  by (rule sync_quiet [where f = published_finalize])
     (simp_all add: published_filter_def simple_filter_def frames_published)

lemma quiet_type: "quiet paging_keys (finalizer type_filter)"
  by (rule sync_quiet [where f = type_finalize])
     (simp_all add: type_filter_def simple_filter_def frames_type)

lemma quiet_joins: "quiet paging_keys (finalizer (joins_filter e))"
  by (rule plain_quiet) (simp_all add: joins_filter_def simple_filter_def)

lemma quiet_addUrls: "quiet paging_keys (finalizer (addUrls_filter e))"
  by (rule plain_quiet) (simp_all add: addUrls_filter_def simple_filter_def)

lemma page_finalizer:
  assumes "\<not> finalized c" and "state c ''page'' = Number a"
    and "state c ''perPage'' = Number b" and "truthy (Number b)"
  shows "\<exists>r c'. finalizer (page_filter e) c = Called Null r c' \<and> \<not> finalized c' \<and>
           state c' ''page'' = Number a \<and> state c' ''perPage'' = Number b \<and>
           state c' ''skip'' = Number (num_mul (num_sub a (Fin 1)) b) \<and> state c' ''limit'' = Number b"
  using assms
  by (simp add: finalizer_def apply_default_def page_filter_def simple_filter_def returning_def
      page_finalize_def and_then_def filter_method_def skip_filter_def limit_filter_def
      default_set_def set_state_def get_state_def arg_def js_mul_def js_sub_def)

lemma builtin_split:
  "builtin_filters e =
     pre_page e @ page_filter e # permission_filter e # autocomplete_filter e # post_autocomplete e"
  by (simp add: builtin_filters_def pre_page_def post_autocomplete_def)

lemma quiet_pre_page: "quiet paging_keys (series (map finalizer (pre_page e)))"
  by (rule quiet_series)
     (simp add: pre_page_def quiet_criteria quiet_addLateCriteria quiet_and quiet_projection
        quiet_defaultSort quiet_sort quiet_skip quiet_limit quiet_perPage)

lemma quiet_post_autocomplete: "quiet paging_keys (series (map finalizer (post_autocomplete e)))"
  by (rule quiet_series)
     (simp add: post_autocomplete_def quiet_search quiet_tag quiet_tags quiet_trash
        quiet_published quiet_explicitOrder quiet_type quiet_joins quiet_addUrls)

text \<open>One pass over the built-in finalizers, for a cursor with page and perPage set.\<close>

lemma paging_pass:
  assumes nf: "\<not> finalized c" and pg: "state c ''page'' = Number a"
    and pp: "state c ''perPage'' = Number b" and n0: "truthy (Number b)"
    and ac: "keeps paging_keys (finalizer (autocomplete_filter e))"
  shows "\<exists>c'. \<not> finalized c' \<and> state c' ''page'' = Number a \<and>
           state c' ''perPage'' = Number b \<and>
           state c' ''skip'' = Number (num_mul (num_sub a (Fin 1)) b) \<and> state c' ''limit'' = Number b \<and>
           ((\<exists>e'. series (map finalizer (builtin_filters e)) c = Thrown e' c') \<or>
            (\<exists>r. series (map finalizer (builtin_filters e)) c = Called Null r c') \<or>
            (\<exists>err r c3. finalizer (autocomplete_filter e) c3 = Called err r c' \<and> truthy err \<and>
               series (map finalizer (builtin_filters e)) c = Called err Undefined c'))"
proof -
  from quiet_pre_page [of e] nf obtain r1 c1 where
    1: "series (map finalizer (pre_page e)) c = Called Null r1 c1" "\<not> finalized c1"
       "\<forall>k\<in>paging_keys. state c1 k = state c k"
    unfolding quiet_def by blast
  from 1(3) pg pp have c1: "state c1 ''page'' = Number a" "state c1 ''perPage'' = Number b"
    by (simp_all add: paging_keys_def)
  from page_finalizer [OF 1(2) c1 n0, of e] obtain r2 c2 where
    2: "finalizer (page_filter e) c1 = Called Null r2 c2" "\<not> finalized c2"
       "state c2 ''page'' = Number a" "state c2 ''perPage'' = Number b"
       "state c2 ''skip'' = Number (num_mul (num_sub a (Fin 1)) b)" "state c2 ''limit'' = Number b"
    by blast
  from quiet_permission [of e] 2(2) obtain r3 c3 where
    3: "finalizer (permission_filter e) c2 = Called Null r3 c3" "\<not> finalized c3"
       "\<forall>k\<in>paging_keys. state c3 k = state c2 k"
    unfolding quiet_def by blast
  have c3: "state c3 ''page'' = Number a" "state c3 ''perPage'' = Number b"
       "state c3 ''skip'' = Number (num_mul (num_sub a (Fin 1)) b)" "state c3 ''limit'' = Number b"
    using 3(3) 2 by (simp_all add: paging_keys_def)
  let ?t = "finalizer (autocomplete_filter e) c3"
  from ac 3(2) have 4: "\<not> finalized (task_cursor ?t)"
      "\<forall>k\<in>paging_keys. state (task_cursor ?t) k = state c3 k"
    by (auto simp: keeps_def)
  have s: "series (map finalizer (builtin_filters e)) c =
           (case ?t of Thrown e' c' \<Rightarrow> Thrown e' c'
            | Called err r c' \<Rightarrow> if truthy err then Called err Undefined c'
                                 else series (map finalizer (post_autocomplete e)) c')"
    by (simp add: builtin_split series_append 1 2 3)
  show ?thesis
  proof (cases ?t)
    case (Thrown e' c4)
    with 4 c3 s show ?thesis by (auto simp: paging_keys_def)
  next
    case (Called err r c4)
    with 4 c3 have c4: "\<not> finalized c4" "state c4 ''page'' = Number a"
      "state c4 ''perPage'' = Number b"
      "state c4 ''skip'' = Number (num_mul (num_sub a (Fin 1)) b)" "state c4 ''limit'' = Number b"
      by (simp_all add: paging_keys_def)
    show ?thesis
    proof (cases "truthy err")
      case True
      with Called s c4 show ?thesis by auto
    next
      case False
      from quiet_post_autocomplete [of e] c4(1) obtain r5 c5 where
        5: "series (map finalizer (post_autocomplete e)) c4 = Called Null r5 c5" "\<not> finalized c5"
           "\<forall>k\<in>paging_keys. state c5 k = state c4 k"
        unfolding quiet_def by blast
      from 5(3) c4 have "state c5 ''page'' = Number a" "state c5 ''perPage'' = Number b"
        "state c5 ''skip'' = Number (num_mul (num_sub a (Fin 1)) b)" "state c5 ''limit'' = Number b"
        by (simp_all add: paging_keys_def)
      with 5 False Called s show ?thesis by auto
    qed
  qed
qed

lemma paging_finalize:
  assumes "\<not> finalized c" and "state c ''page'' = Number a"
    and "state c ''perPage'' = Number b" and "truthy (Number b)"
    and ac: "keeps paging_keys (finalizer (autocomplete_filter e))"
    and "finalize k (builtin_filters e) c = Some out"
  shows "state (cursor_of out) ''skip'' = Number (num_mul (num_sub a (Fin 1)) b) \<and>
         state (cursor_of out) ''limit'' = Number b"
  using assms(1,2,3,6)
proof (induction k arbitrary: c)
  case 0
  then show ?case by simp
next
  case (Suc k)
  from paging_pass [OF Suc.prems(1,2,3) assms(4) ac] obtain c' where
    c': "\<not> finalized c'" "state c' ''page'' = Number a"
        "state c' ''perPage'' = Number b"
        "state c' ''skip'' = Number (num_mul (num_sub a (Fin 1)) b)" "state c' ''limit'' = Number b"
    and r: "(\<exists>e'. series (map finalizer (builtin_filters e)) c = Thrown e' c') \<or>
            (\<exists>r. series (map finalizer (builtin_filters e)) c = Called Null r c') \<or>
            (\<exists>err r c3. finalizer (autocomplete_filter e) c3 = Called err r c' \<and> truthy err \<and>
               series (map finalizer (builtin_filters e)) c = Called err Undefined c')"
    by blast
  from r show ?case
  proof (elim disjE exE conjE)
    fix e' assume "series (map finalizer (builtin_filters e)) c = Thrown e' c'"
    with Suc.prems c' show ?thesis by auto
  next
    fix r assume "series (map finalizer (builtin_filters e)) c = Called Null r c'"
    with Suc.prems c' show ?thesis by auto
  next
    fix err r c3 assume t: "truthy err"
      and s: "series (map finalizer (builtin_filters e)) c = Called err Undefined c'"
    show ?thesis
    proof (cases "err = String ''refinalize''")
      case True
      with Suc.prems t s have "finalize k (builtin_filters e) c' = Some out" by simp
      from Suc.IH [OF c'(1,2,3) this] show ?thesis .
    next
      case False
      with Suc.prems t s c' show ?thesis by auto
    qed
  qed
qed

lemma paging_returns:
  assumes "\<not> finalized c" and "state c ''page'' = Number a"
    and "state c ''perPage'' = Number b" and "truthy (Number b)"
    and ac: "keeps paging_keys (finalizer (autocomplete_filter e))"
    and nr: "never_refinalize (finalizer (autocomplete_filter e))"
  shows "finalize (Suc k) (builtin_filters e) c \<noteq> None"
proof -
  from paging_pass [OF assms(1,2,3,4) ac] obtain c' where
    r: "(\<exists>e'. series (map finalizer (builtin_filters e)) c = Thrown e' c') \<or>
            (\<exists>r. series (map finalizer (builtin_filters e)) c = Called Null r c') \<or>
            (\<exists>err r c3. finalizer (autocomplete_filter e) c3 = Called err r c' \<and> truthy err \<and>
               series (map finalizer (builtin_filters e)) c = Called err Undefined c')"
    by blast
  from r show ?thesis
  proof (elim disjE exE conjE)
    fix e' assume "series (map finalizer (builtin_filters e)) c = Thrown e' c'"
    with assms(1) show ?thesis by simp
  next
    fix r assume "series (map finalizer (builtin_filters e)) c = Called Null r c'"
    with assms(1) show ?thesis by simp
  next
    fix err r c3 assume a: "finalizer (autocomplete_filter e) c3 = Called err r c'"
      and s: "series (map finalizer (builtin_filters e)) c = Called err Undefined c'"
    from nr a have "err \<noteq> String ''refinalize''"
      by (auto simp: never_refinalize_def split: task_result.splits)
    with s assms(1) show ?thesis by simp
  qed
qed

lemma bits_nonneg: "0 \<le> bits n"
proof (induction n rule: bits.induct)
  case (1 n)
  show ?case
  proof (cases "n \<le> 0")
    case True
    then show ?thesis by (subst bits.simps) simp
  next
    case False
    from 1 [OF False] have "0 \<le> bits (n div 2)" .
    with False show ?thesis by (subst bits.simps) simp
  qed
qed

lemma bits_pos: "0 < n \<Longrightarrow> 1 \<le> bits n"
  using bits_nonneg [of "n div 2"] by (subst bits.simps) simp

lemma bits_bounds: "0 < n \<Longrightarrow> 2 ^ nat (bits n - 1) \<le> n \<and> n < 2 ^ nat (bits n)"
proof (induction n rule: bits.induct)
  case (1 n)
  show ?case
  proof (cases "n = 1")
    case True
    have "bits 1 = 1" by (simp add: bits.simps)
    with True show ?thesis by simp
  next
    case False
    with 1(2) have h: "0 < n div 2" by simp
    from 1(2) have nz: "\<not> n \<le> 0" by simp
    from 1(1) [OF nz h] have ih: "2 ^ nat (bits (n div 2) - 1) \<le> n div 2"
      "n div 2 < 2 ^ nat (bits (n div 2))" by simp_all
    have b: "bits n = 1 + bits (n div 2)" using nz by (subst bits.simps) simp
    from bits_pos [OF h] have p: "1 \<le> bits (n div 2)" .
    have e1: "nat (bits n - 1) = Suc (nat (bits (n div 2) - 1))" using b p by simp
    have e2: "nat (bits n) = Suc (nat (bits (n div 2)))" using b p by simp
    from ih(1) have "2 * 2 ^ nat (bits (n div 2) - 1) \<le> n" by simp
    moreover from ih(2) have "n < 2 * 2 ^ nat (bits (n div 2))" by simp
    ultimately show ?thesis by (simp add: e1 e2)
  qed
qed

lemma round_even_of_int: "round_even (of_int k) = k"
  by (simp add: round_even_def)

text \<open>An integer of magnitude at most \<open>2 ^ 53\<close> is a binary64 number: it is its own rounding.\<close>

lemma binary64_int:
  assumes "\<bar>z\<bar> \<le> 2 ^ 53"
  shows "binary64 (of_int z) = Fin (of_int z)"
proof (cases "z = 0")
  case True
  then show ?thesis by (simp add: binary64_def)
next
  case False
  define n where "n = \<bar>z\<bar>"
  have n: "0 < n" "n \<le> 2 ^ 53" using False assms by (simp_all add: n_def)
  have a: "\<bar>of_int z :: rat\<bar> = of_int n" by (simp add: n_def)
  define e where "e = bits n - 1"
  from bits_bounds [OF n(1)] have bb: "2 ^ nat e \<le> n" "n < 2 ^ nat (bits n)" by (simp_all add: e_def)
  from bits_pos [OF n(1)] have e0: "0 \<le> e" by (simp add: e_def)
  have "(2 :: int) ^ nat e \<le> 2 ^ 53" using bb(1) n(2) by (rule order_trans)
  then have "nat e \<le> 53" by (rule power_le_imp_le_exp [rotated]) simp
  then have e53: "e \<le> 53" by simp
  have b1: "bits 1 = 1" by (simp add: bits.simps)
  have "pow2 e = of_int (2 ^ nat e)" using e0 by (simp add: pow2_def)
  also have "\<dots> \<le> of_int n" using bb(1) by (simp only: of_int_le_iff)
  finally have le: "pow2 e \<le> of_int n" .
  have il: "ilog2 (of_int n) = e"
    using le by (simp add: ilog2_def b1 e_def Let_def)
  have mx: "max e (- 1022) = e" using e0 by simp
  obtain k where k: "(of_int n :: rat) / pow2 (e - 52) = of_int k" "k \<noteq> 0"
    "of_int k * pow2 (e - 52) = (of_int n :: rat)"
  proof (cases "e \<le> 52")
    case True
    then have q: "pow2 (e - 52) = 1 / 2 ^ nat (52 - e)"
      by (cases "e = 52") (simp_all add: pow2_def)
    have 1: "(of_int n :: rat) / pow2 (e - 52) = of_int (n * 2 ^ nat (52 - e))"
      by (simp add: q)
    have 2: "n * 2 ^ nat (52 - e) \<noteq> 0" using n(1) by simp
    have 3: "of_int (n * 2 ^ nat (52 - e)) * pow2 (e - 52) = (of_int n :: rat)"
      by (simp add: q)
    from 1 2 3 that show ?thesis by blast
  next
    case False
    with e53 have e: "e = 53" by simp
    with bb(1) n(2) have n53: "n = 2 ^ 53" by simp
    have q: "pow2 (e - 52) = 2" by (simp add: e pow2_def)
    have 1: "(of_int n :: rat) / pow2 (e - 52) = of_int (2 ^ 52)" by (simp add: q n53)
    have 3: "of_int (2 ^ 52) * pow2 (e - 52) = (of_int n :: rat)" by (simp add: q n53)
    from 1 3 that [of "2 ^ 52"] show ?thesis by simp
  qed
  have r: "round_even (of_int n / pow2 (e - 52)) = k"
    by (simp only: k(1) round_even_of_int)
  have val: "(if z < 0 then - (of_int n :: rat) else of_int n) = of_int z"
    by (simp add: n_def)
  have "binary64 (of_int z) =
          Fin (if z < 0 then - (of_int k * pow2 (e - 52)) else of_int k * pow2 (e - 52))"
    using False e53 k(2)
    by (simp add: binary64_def a il mx r Let_def)
  then show ?thesis by (simp only: k(3) val)
qed

text \<open>
  For a whole page number \<open>p\<close> from 1 on and a whole page size \<open>n\<close> from 1 on, the
  arithmetic of the code is exact as long as the product does not exceed \<open>2 ^ 53\<close>.
\<close>

lemma skip_exact:
  assumes "1 \<le> p" and "1 \<le> n" and "(p - 1) * n \<le> 2 ^ 53"
  shows "num_mul (num_sub (Fin (of_int p)) (Fin 1)) (Fin (of_int n)) = Fin (of_int ((p - 1) * n))"
proof -
  have pn: "p - 1 \<le> (p - 1) * n" using assms(1,2) by (simp add: mult_le_cancel_left1)
  with assms(3) have p53: "\<bar>p - 1\<bar> \<le> 2 ^ 53" using assms(1) by simp
  have s: "num_sub (Fin (of_int p)) (Fin 1) = Fin (of_int (p - 1))"
  proof (cases "p = 1")
    case True
    then show ?thesis by (simp add: num_sub_def num_add_def)
  next
    case False
    then have "(of_int p :: rat) + - 1 \<noteq> 0" by simp
    moreover have "(of_int p :: rat) + - 1 = of_int (p - 1)" by simp
    ultimately show ?thesis
      using binary64_int [OF p53] by (simp add: num_sub_def num_add_def)
  qed
  show ?thesis
  proof (cases "p = 1")
    case True
    from s True have "num_sub (Fin 1) (Fin 1) = Fin 0" by simp
    with True assms(2) show ?thesis by (simp add: num_mul_def zero_of_def)
  next
    case False
    with assms(1) have p0: "0 < p - 1" by simp
    from assms(2) have n0: "0 < n" by simp
    have m: "\<bar>(p - 1) * n\<bar> \<le> 2 ^ 53" using assms(3) p0 n0 by simp
    have "(of_int (p - 1) :: rat) * of_int n = of_int ((p - 1) * n)" by simp
    with binary64_int [OF m] p0 n0 show ?thesis
      by (simp add: s num_mul_def del: of_int_mult of_int_diff)
  qed
qed

text \<open>
  Claim C8, as it is stated, fails. \<open>cursor.page(0).perPage(10)\<close> finalizes to
  \<open>skip = -10\<close> and \<open>limit = 10\<close>, with the page number still 0: neither the method
  \<open>page\<close> nor the finalization launders the page number. The \<open>launder\<close> function of the
  filter is applied by \<open>queryToFilters\<close> only.
\<close>

theorem page_zero_not_laundered:
  "map_option paging_state (finalize 1 (builtin_filters example_env) page0_perPage10)
   = Some (Number (Fin 0), Number (Fin (- 10)), Number (Fin 10))"
  by code_simp

text \<open>
  Claim C8, amended. On a cursor that is not finalized, with \<open>page\<close> set to a number \<open>a\<close>
  and \<open>perPage\<close> set to a number \<open>b\<close> that is truthy (the test of the code for \<open>perPage\<close>
  being set), whatever way the finalization ends, it leaves \<open>skip = (a - 1) * b\<close>,
  computed on the page number as it is stored and in the arithmetic of the language, and
  \<open>limit = b\<close>; for a whole page number \<open>p\<close> from 1 on and a whole page size \<open>n\<close> from 1
  on whose product stays within \<open>2 ^ 53\<close> this is the integer \<open>(p - 1) * n\<close>. The
  finalization does end, in one pass, when the finalizer of \<open>autocomplete\<close> never asks for
  another pass. The finalizer of \<open>autocomplete\<close>, which is not among the sources, is asked
  to leave \<open>skip\<close>, \<open>limit\<close>, \<open>page\<close> and \<open>perPage\<close> alone. The witness is
  \<open>cursor.page(2).perPage(10)\<close>, which finalizes to \<open>skip = 10\<close> and \<open>limit = 10\<close>.
\<close>

theorem page_perPage_skip_limit:
  assumes "\<not> finalized c"
    and "get_state c ''page'' = Number a"
    and "get_state c ''perPage'' = Number b" and "truthy (Number b)"
    and "keeps paging_keys (finalizer (autocomplete_filter e))"
  shows "(\<forall>k out. finalize k (builtin_filters e) c = Some out \<longrightarrow>
            get_state (cursor_of out) ''skip'' = Number (num_mul (num_sub a (Fin 1)) b) \<and>
            get_state (cursor_of out) ''limit'' = Number b)
         \<and> (\<forall>p n. a = Fin (of_int p) \<and> b = Fin (of_int n) \<and> 1 \<le> p \<and> 1 \<le> n \<and>
                   (p - 1) * n \<le> 2 ^ 53 \<longrightarrow>
                num_mul (num_sub a (Fin 1)) b = Fin (of_int ((p - 1) * n)))
         \<and> (never_refinalize (finalizer (autocomplete_filter e)) \<longrightarrow>
              finalize 1 (builtin_filters e) c \<noteq> None)"
proof (intro conjI allI impI)
  fix k out assume "finalize k (builtin_filters e) c = Some out"
  with assms paging_finalize [of c a b e k out]
  show "get_state (cursor_of out) ''skip'' = Number (num_mul (num_sub a (Fin 1)) b)"
    and "get_state (cursor_of out) ''limit'' = Number b"
    by (simp_all add: get_state_def)
next
  fix p n :: int
  assume "a = Fin (of_int p) \<and> b = Fin (of_int n) \<and> 1 \<le> p \<and> 1 \<le> n \<and> (p - 1) * n \<le> 2 ^ 53"
  then show "num_mul (num_sub a (Fin 1)) b = Fin (of_int ((p - 1) * n))"
    using skip_exact [of p n] by simp
next
  assume "never_refinalize (finalizer (autocomplete_filter e))"
  with assms paging_returns [of c a b e 0]
  show "finalize 1 (builtin_filters e) c \<noteq> None"
    by (simp add: get_state_def)
qed

theorem page_perPage_skip_limit_witness:
  "\<not> finalized page2_perPage10
   \<and> get_state page2_perPage10 ''page'' = Number (Fin 2)
   \<and> get_state page2_perPage10 ''perPage'' = Number (Fin 10)
   \<and> truthy (Number (Fin 10))
   \<and> keeps paging_keys (finalizer (autocomplete_filter example_env))
   \<and> (\<exists>out. finalize 1 (builtin_filters example_env) page2_perPage10 = Some out
         \<and> get_state (cursor_of out) ''skip'' = Number (Fin 10)
         \<and> get_state (cursor_of out) ''limit'' = Number (Fin 10))"
proof -
  have nf: "\<not> finalized page2_perPage10"
    and pg: "get_state page2_perPage10 ''page'' = Number (Fin 2)"
    and pp: "get_state page2_perPage10 ''perPage'' = Number (Fin 10)"
    by (simp_all add: page2_perPage10_def new_cursor_def filter_method_def page_filter_def
        perPage_filter_def simple_filter_def default_set_def set_state_def get_state_def arg_def)
  have n0: "truthy (Number (Fin 10))" by simp
  have ac: "keeps paging_keys (finalizer (autocomplete_filter example_env))"
    by (auto simp: keeps_def finalizer_def apply_default_def filter_method_def
        autocomplete_filter_def simple_filter_def example_env_def default_set_def
        set_state_def get_state_def arg_def paging_keys_def)
  have nr: "never_refinalize (finalizer (autocomplete_filter example_env))"
    by (auto simp: never_refinalize_def finalizer_def apply_default_def filter_method_def
        autocomplete_filter_def simple_filter_def example_env_def default_set_def
        split: task_result.splits prod.splits option.splits if_splits)
  note t = page_perPage_skip_limit [OF nf pg pp n0 ac]
  from t nr obtain out where
    out: "finalize 1 (builtin_filters example_env) page2_perPage10 = Some out" by blast
  from t have ex: "num_mul (num_sub (Fin 2) (Fin 1)) (Fin 10) = Fin (of_int ((2 - 1) * 10))"
    by (elim conjE allE [of _ 2] allE [of _ 10]) simp
  from t out have "get_state (cursor_of out) ''skip'' = Number (num_mul (num_sub (Fin 2) (Fin 1)) (Fin 10))"
    and "get_state (cursor_of out) ''limit'' = Number (Fin 10)" by blast+
  with ex out nf pg pp n0 ac show ?thesis by simp
qed

subsection \<open>The trash filter: \<open>trash(false)\<close> and no call at all\<close>

lemma trash_only_state: "trash_only c1 c2 \<Longrightarrow> k \<noteq> ''trash'' \<Longrightarrow> state c1 k = state c2 k"
  by (simp add: trash_only_def)

lemma trash_only_finalized: "trash_only c1 c2 \<Longrightarrow> finalized c2 = finalized c1"
  by (simp add: trash_only_def)

lemma trash_only_set:
  "trash_only c1 c2 \<Longrightarrow> k \<noteq> ''trash'' \<Longrightarrow> trash_only (set_state k v c1) (set_state k v c2)"
  by (simp add: trash_only_def set_state_def)

lemma self_and_unfinalized:
  "\<not> finalized c \<Longrightarrow>
   self_and x c =
     (None, if truthy x
            then set_state ''criteria''
                   (if truthy (state c ''criteria'')
                    then Object [(''$and'', Array [state c ''criteria'', x])] else x) c
            else c)"
  by (simp add: self_and_def and_set_def and_filter_def criteria_filter_def simple_filter_def
      filter_method_def default_set_def get_state_def arg_def Let_def)

lemma self_and_alike:
  assumes "\<not> finalized c1" and "trash_only c1 c2"
  shows "fst (self_and x c1) = fst (self_and x c2) \<and> \<not> finalized (snd (self_and x c1)) \<and>
         trash_only (snd (self_and x c1)) (snd (self_and x c2))"
proof -
  from assms have nf2: "\<not> finalized c2" by (simp add: trash_only_def)
  from assms have eq: "state c1 ''criteria'' = state c2 ''criteria''"
    by (simp add: trash_only_state)
  show ?thesis
    using assms
    by (simp add: self_and_unfinalized nf2 eq trash_only_set) (simp add: set_state_def)
qed

lemma sync_ignores:
  assumes "set_fn d = None" and "finalize_fn d = returning f"
    and "filter_name d \<noteq> ''trash''" and "alike_action f"
  shows "ignores_trash (finalizer d)"
  unfolding ignores_trash_def
proof (intro allI impI, elim conjE)
  fix c1 c2 :: cursor assume nf: "\<not> finalized c1" and to: "trash_only c1 c2"
  let ?n = "filter_name d"
  define d1 where "d1 = (if state c1 ?n = Undefined then set_state ?n (def_value d) c1 else c1)"
  define d2 where "d2 = (if state c2 ?n = Undefined then set_state ?n (def_value d) c2 else c2)"
  from to assms(3) have eq: "state c1 ?n = state c2 ?n" by (simp add: trash_only_state)
  from nf to have nf2: "\<not> finalized c2" by (simp add: trash_only_def)
  have a1: "apply_default d c1 = (None, d1)"
    using nf assms(1)
    by (simp add: apply_default_def filter_method_def default_set_def get_state_def arg_def d1_def)
  have a2: "apply_default d c2 = (None, d2)"
    using nf2 assms(1)
    by (simp add: apply_default_def filter_method_def default_set_def get_state_def arg_def d2_def)
  have d: "\<not> finalized d1" "trash_only d1 d2"
    using nf to eq assms(3) by (auto simp: d1_def d2_def trash_only_set) (simp add: set_state_def)
  with assms(4) have f: "fst (f d1) = fst (f d2)" "\<not> finalized (snd (f d1))"
    "trash_only (snd (f d1)) (snd (f d2))"
    by (auto simp: alike_action_def)
  obtain x1 e1 where f1: "f d1 = (x1, e1)" by (cases "f d1")
  obtain x2 e2 where f2: "f d2 = (x2, e2)" by (cases "f d2")
  from f f1 f2 have "x1 = x2" "\<not> finalized e1" "trash_only e1 e2" by simp_all
  then show "task_alike (finalizer d c1) (finalizer d c2)"
    using a1 a2 f1 f2 assms(2)
    by (cases x2) (simp_all add: finalizer_def returning_def)
qed

lemma plain_ignores:
  assumes "set_fn d = None" and "finalize_fn d = NoFinalize" and "filter_name d \<noteq> ''trash''"
  shows "ignores_trash (finalizer d)"
  unfolding ignores_trash_def
proof (intro allI impI, elim conjE)
  fix c1 c2 :: cursor assume nf: "\<not> finalized c1" and to: "trash_only c1 c2"
  let ?n = "filter_name d"
  from to assms(3) have eq: "state c1 ?n = state c2 ?n" by (simp add: trash_only_state)
  from nf to have nf2: "\<not> finalized c2" by (simp add: trash_only_def)
  show "task_alike (finalizer d c1) (finalizer d c2)"
    using nf nf2 to eq assms
    by (simp add: finalizer_def apply_default_def filter_method_def default_set_def
        get_state_def arg_def trash_only_set) (simp add: set_state_def)
qed

lemma alike_tag: "alike_action tag_finalize"
  unfolding alike_action_def
proof (intro allI impI, elim conjE)
  fix c1 c2 :: cursor assume nf: "\<not> finalized c1" and to: "trash_only c1 c2"
  have eq: "state c1 ''tag'' = state c2 ''tag''" using to by (simp add: trash_only_state)
  show "fst (tag_finalize c1) = fst (tag_finalize c2) \<and> \<not> finalized (snd (tag_finalize c1)) \<and>
        trash_only (snd (tag_finalize c1)) (snd (tag_finalize c2))"
    using self_and_alike [OF nf to] nf to eq
    by (simp add: tag_finalize_def get_state_def Let_def)
qed

lemma alike_tags: "alike_action tags_finalize"
  unfolding alike_action_def
proof (intro allI impI, elim conjE)
  fix c1 c2 :: cursor assume nf: "\<not> finalized c1" and to: "trash_only c1 c2"
  have eq: "state c1 ''tags'' = state c2 ''tags''" using to by (simp add: trash_only_state)
  show "fst (tags_finalize c1) = fst (tags_finalize c2) \<and> \<not> finalized (snd (tags_finalize c1)) \<and>
        trash_only (snd (tags_finalize c1)) (snd (tags_finalize c2))"
    using self_and_alike [OF nf to] nf to eq
    by (simp add: tags_finalize_def get_state_def Let_def)
qed

lemma alike_type: "alike_action type_finalize"
  unfolding alike_action_def
proof (intro allI impI, elim conjE)
  fix c1 c2 :: cursor assume nf: "\<not> finalized c1" and to: "trash_only c1 c2"
  have eq: "state c1 ''type'' = state c2 ''type''" using to by (simp add: trash_only_state)
  show "fst (type_finalize c1) = fst (type_finalize c2) \<and> \<not> finalized (snd (type_finalize c1)) \<and>
        trash_only (snd (type_finalize c1)) (snd (type_finalize c2))"
    using self_and_alike [OF nf to] nf to eq
    by (simp add: type_finalize_def get_state_def Let_def)
qed

lemma alike_published: "alike_action published_finalize"
  unfolding alike_action_def
proof (intro allI impI, elim conjE)
  fix c1 c2 :: cursor assume nf: "\<not> finalized c1" and to: "trash_only c1 c2"
  have eq: "state c1 ''published'' = state c2 ''published''" using to by (simp add: trash_only_state)
  show "fst (published_finalize c1) = fst (published_finalize c2) \<and>
        \<not> finalized (snd (published_finalize c1)) \<and>
        trash_only (snd (published_finalize c1)) (snd (published_finalize c2))"
    using self_and_alike [OF nf to] nf to eq
    by (simp add: published_finalize_def get_state_def Let_def)
qed

lemma alike_search: "alike_action (search_finalize e)"
  unfolding alike_action_def
proof (intro allI impI, elim conjE)
  fix c1 c2 :: cursor assume nf: "\<not> finalized c1" and to: "trash_only c1 c2"
  have eq: "state c1 ''search'' = state c2 ''search''"
    "state c1 ''regexSearch'' = state c2 ''regexSearch''"
    using to by (simp_all add: trash_only_state)
  show "fst (search_finalize e c1) = fst (search_finalize e c2) \<and>
        \<not> finalized (snd (search_finalize e c1)) \<and>
        trash_only (snd (search_finalize e c1)) (snd (search_finalize e c2))"
    using self_and_alike [OF nf to] nf to eq
    by (simp add: search_finalize_def get_state_def Let_def)
qed

lemma alike_permission: "alike_action (permission_finalize e)"
  unfolding alike_action_def
proof (intro allI impI, elim conjE)
  fix c1 c2 :: cursor assume nf: "\<not> finalized c1" and to: "trash_only c1 c2"
  have eq: "state c1 ''permission'' = state c2 ''permission''"
    "state c1 ''type'' = state c2 ''type''" "state c1 ''req'' = state c2 ''req''"
    using to by (simp_all add: trash_only_state)
  show "fst (permission_finalize e c1) = fst (permission_finalize e c2) \<and>
        \<not> finalized (snd (permission_finalize e c1)) \<and>
        trash_only (snd (permission_finalize e c1)) (snd (permission_finalize e c2))"
    using self_and_alike [OF nf to] nf to eq
    by (simp add: permission_finalize_def get_state_def Let_def split: jsval.splits)
qed

lemma alike_projection: "alike_action projection_finalize"
  unfolding alike_action_def
proof (intro allI impI, elim conjE)
  fix c1 c2 :: cursor assume nf: "\<not> finalized c1" and to: "trash_only c1 c2"
  have eq: "state c1 ''projection'' = state c2 ''projection''"
    "state c1 ''search'' = state c2 ''search''"
    using to by (simp_all add: trash_only_state)
  show "fst (projection_finalize c1) = fst (projection_finalize c2) \<and>
        \<not> finalized (snd (projection_finalize c1)) \<and>
        trash_only (snd (projection_finalize c1)) (snd (projection_finalize c2))"
    using nf to eq
    by (simp add: projection_finalize_def get_state_def Let_def trash_only_set)
       (simp add: set_state_def)
qed

lemma chosen_sort_alike: "trash_only c1 c2 \<Longrightarrow> chosen_sort c1 = chosen_sort c2"
proof -
  assume to: "trash_only c1 c2"
  have eq: "state c1 ''sort'' = state c2 ''sort''" "state c1 ''search'' = state c2 ''search''"
    "state c1 ''regexSearch'' = state c2 ''regexSearch''"
    "state c1 ''defaultSort'' = state c2 ''defaultSort''"
    using to by (simp_all add: trash_only_state)
  show ?thesis unfolding chosen_sort_def get_state_def eq by (rule refl)
qed

lemma alike_sort: "alike_action (sort_finalize e)"
  unfolding alike_action_def
proof (intro allI impI, elim conjE)
  fix c1 c2 :: cursor assume nf: "\<not> finalized c1" and to: "trash_only c1 c2"
  have eq: "state c1 ''type'' = state c2 ''type''" using to by (simp add: trash_only_state)
  note cs = chosen_sort_alike [OF to]
  have s1: "trash_only (set_state ''sort'' v c1) (set_state ''sort'' v c2)" for v
    using to by (simp add: trash_only_set)
  have s2: "trash_only (set_state ''sortMongo'' w (set_state ''sort'' v c1))
                       (set_state ''sortMongo'' w (set_state ''sort'' v c2))" for v w
    using s1 by (simp add: trash_only_set)
  have f: "\<not> finalized (set_state k v c)" if "\<not> finalized c" for k v and c :: cursor
    using that by (simp add: set_state_def)
  show "fst (sort_finalize e c1) = fst (sort_finalize e c2) \<and>
        \<not> finalized (snd (sort_finalize e c1)) \<and>
        trash_only (snd (sort_finalize e c1)) (snd (sort_finalize e c2))"
    unfolding sort_finalize_def Let_def cs
    using nf s1 s2 f eq
    by (simp add: get_state_def set_state_def split: option.splits)
qed

lemma alike_page: "alike_action (page_finalize e)"
  unfolding alike_action_def
proof (intro allI impI, elim conjE)
  fix c1 c2 :: cursor assume nf: "\<not> finalized c1" and to: "trash_only c1 c2"
  have nf2: "\<not> finalized c2" using nf to by (simp add: trash_only_def)
  have eq: "state c1 ''page'' = state c2 ''page''" "state c1 ''perPage'' = state c2 ''perPage''"
    using to by (simp_all add: trash_only_state)
  have s: "trash_only (set_state ''limit'' w (set_state ''skip'' v c1))
                      (set_state ''limit'' w (set_state ''skip'' v c2))" for v w
    using to by (simp add: trash_only_set)
  show "fst (page_finalize e c1) = fst (page_finalize e c2) \<and>
        \<not> finalized (snd (page_finalize e c1)) \<and>
        trash_only (snd (page_finalize e c1)) (snd (page_finalize e c2))"
    using nf nf2 to eq s
    by (simp add: page_finalize_def and_then_def filter_method_def skip_filter_def
        limit_filter_def simple_filter_def default_set_def get_state_def arg_def)
       (simp add: set_state_def)
qed

lemma ignores_criteria: "ignores_trash (finalizer criteria_filter)"
  by (rule plain_ignores) (simp_all add: criteria_filter_def simple_filter_def)

lemma ignores_defaultSort: "ignores_trash (finalizer defaultSort_filter)"
  by (rule plain_ignores) (simp_all add: defaultSort_filter_def simple_filter_def)

lemma ignores_skip: "ignores_trash (finalizer (skip_filter e))"
  by (rule plain_ignores) (simp_all add: skip_filter_def simple_filter_def)

lemma ignores_limit: "ignores_trash (finalizer (limit_filter e))"
  by (rule plain_ignores) (simp_all add: limit_filter_def simple_filter_def)

lemma ignores_perPage: "ignores_trash (finalizer perPage_filter)"
  by (rule plain_ignores) (simp_all add: perPage_filter_def simple_filter_def)

lemma ignores_joins: "ignores_trash (finalizer (joins_filter e))"
  by (rule plain_ignores) (simp_all add: joins_filter_def simple_filter_def)

lemma ignores_addUrls: "ignores_trash (finalizer (addUrls_filter e))"
  by (rule plain_ignores) (simp_all add: addUrls_filter_def simple_filter_def)

lemma ignores_projection: "ignores_trash (finalizer projection_filter)"
  by (rule sync_ignores [where f = projection_finalize])
     (simp_all add: projection_filter_def simple_filter_def alike_projection)

lemma ignores_sort: "ignores_trash (finalizer (sort_filter e))"
  by (rule sync_ignores [where f = "sort_finalize e"])
     (simp_all add: sort_filter_def simple_filter_def alike_sort)

lemma ignores_page: "ignores_trash (finalizer (page_filter e))"
  by (rule sync_ignores [where f = "page_finalize e"])
     (simp_all add: page_filter_def simple_filter_def alike_page)

lemma ignores_permission: "ignores_trash (finalizer (permission_filter e))"
  by (rule sync_ignores [where f = "permission_finalize e"])
     (simp_all add: permission_filter_def simple_filter_def alike_permission)

lemma ignores_search: "ignores_trash (finalizer (search_filter e))"
  by (rule sync_ignores [where f = "search_finalize e"])
     (simp_all add: search_filter_def simple_filter_def alike_search)

lemma ignores_tag: "ignores_trash (finalizer (tag_filter e))"
  by (rule sync_ignores [where f = tag_finalize])
     (simp_all add: tag_filter_def simple_filter_def alike_tag)

lemma ignores_tags: "ignores_trash (finalizer (tags_filter e))"
  by (rule sync_ignores [where f = tags_finalize])
     (simp_all add: tags_filter_def simple_filter_def alike_tags)

lemma ignores_published: "ignores_trash (finalizer (published_filter e))"
  by (rule sync_ignores [where f = published_finalize])
     (simp_all add: published_filter_def simple_filter_def alike_published)

lemma ignores_type: "ignores_trash (finalizer type_filter)"
  by (rule sync_ignores [where f = type_finalize])
     (simp_all add: type_filter_def simple_filter_def alike_type)

lemma ignores_and: "ignores_trash (finalizer and_filter)"
  unfolding ignores_trash_def
proof (intro allI impI, elim conjE)
  fix c1 c2 :: cursor assume nf: "\<not> finalized c1" and to: "trash_only c1 c2"
  have nf2: "\<not> finalized c2" using nf to by (simp add: trash_only_def)
  have eq: "state c1 ''and'' = state c2 ''and''" using to by (simp add: trash_only_state)
  show "task_alike (finalizer and_filter c1) (finalizer and_filter c2)"
    using nf nf2 to eq
    by (simp add: finalizer_def apply_default_def filter_method_def and_filter_def
        simple_filter_def and_set_def get_state_def arg_def)
qed

lemma ignores_addLateCriteria: "ignores_trash (finalizer addLateCriteria_filter)"
  unfolding ignores_trash_def
proof (intro allI impI, elim conjE)
  fix c1 c2 :: cursor assume nf: "\<not> finalized c1" and to: "trash_only c1 c2"
  have nf2: "\<not> finalized c2" using nf to by (simp add: trash_only_def)
  have eq: "state c1 ''addLateCriteria'' = state c2 ''addLateCriteria''"
    "state c1 ''lateCriteria'' = state c2 ''lateCriteria''"
    using to by (simp_all add: trash_only_state)
  have s: "trash_only (set_state ''lateCriteria'' v c1) (set_state ''lateCriteria'' v c2)" for v
    using to by (simp add: trash_only_set)
  show "task_alike (finalizer addLateCriteria_filter c1) (finalizer addLateCriteria_filter c2)"
    using nf nf2 to eq s
    by (simp add: finalizer_def apply_default_def filter_method_def addLateCriteria_filter_def
        simple_filter_def addLateCriteria_set_def get_state_def arg_def Let_def)
       (simp add: set_state_def)
qed

lemma ignores_explicitOrder: "ignores_trash (finalizer explicitOrder_filter)"
  unfolding ignores_trash_def
proof (intro allI impI, elim conjE)
  fix c1 c2 :: cursor assume nf: "\<not> finalized c1" and to: "trash_only c1 c2"
  have nf2: "\<not> finalized c2" using nf to by (simp add: trash_only_def)
  have eq: "state c1 ''explicitOrder'' = state c2 ''explicitOrder''"
    using to by (simp add: trash_only_state)
  have s: "trash_only (set_state ''explicitOrderProperty'' w (set_state ''explicitOrder'' v c1))
                      (set_state ''explicitOrderProperty'' w (set_state ''explicitOrder'' v c2))"
    for v w using to by (simp add: trash_only_set)
  show "task_alike (finalizer explicitOrder_filter c1) (finalizer explicitOrder_filter c2)"
    using nf nf2 to eq s
    by (simp add: finalizer_def apply_default_def filter_method_def explicitOrder_filter_def
        simple_filter_def explicitOrder_set_def get_state_def arg_def)
       (simp add: set_state_def)
qed

text \<open>
  The finalizer of \<open>trash\<close> itself: with \<open>false\<close> the default is not applied, with
  \<open>undefined\<close> it is applied and stores \<open>undefined\<close> again; both values are falsy and not
  \<open>null\<close>, so both passes add the same clause.
\<close>

lemma ignores_trash_filter: "ignores_trash (finalizer (trash_filter e))"
  unfolding ignores_trash_def
proof (intro allI impI, elim conjE)
  fix c1 c2 :: cursor assume nf: "\<not> finalized c1" and to: "trash_only c1 c2"
  have nf2: "\<not> finalized c2" using nf to by (simp add: trash_only_def)
  have t1: "state c1 ''trash'' = Boolean False" and t2: "state c2 ''trash'' = Undefined"
    using to by (simp_all add: trash_only_def)
  define d2 where "d2 = set_state ''trash'' Undefined c2"
  have d2: "trash_only c1 d2" "\<not> finalized d2"
    using to nf2 by (simp_all add: d2_def trash_only_def set_state_def)
  have a1: "apply_default (trash_filter e) c1 = (None, c1)"
    using t1 by (simp add: apply_default_def trash_filter_def simple_filter_def get_state_def)
  have a2: "apply_default (trash_filter e) c2 = (None, d2)"
    using t2 nf2
    by (simp add: apply_default_def trash_filter_def simple_filter_def get_state_def
        filter_method_def default_set_def arg_def d2_def)
  have f1: "trash_finalize c1 = self_and not_trash c1"
    using t1 by (simp add: trash_finalize_def get_state_def)
  have f2: "trash_finalize d2 = self_and not_trash d2"
    by (simp add: trash_finalize_def get_state_def d2_def set_state_def)
  from self_and_alike [OF nf d2(1), of not_trash]
  have sa: "fst (self_and not_trash c1) = fst (self_and not_trash d2)"
    "\<not> finalized (snd (self_and not_trash c1))"
    "trash_only (snd (self_and not_trash c1)) (snd (self_and not_trash d2))" by simp_all
  obtain x1 e1 where s1: "self_and not_trash c1 = (x1, e1)" by (cases "self_and not_trash c1")
  obtain x2 e2 where s2: "self_and not_trash d2 = (x2, e2)" by (cases "self_and not_trash d2")
  from sa s1 s2 have "x1 = x2" "\<not> finalized e1" "trash_only e1 e2" by simp_all
  then show "task_alike (finalizer (trash_filter e) c1) (finalizer (trash_filter e) c2)"
    using a1 a2 f1 f2 s1 s2
    by (cases x2) (simp_all add: finalizer_def trash_filter_def simple_filter_def returning_def)
qed

lemma ignores_series: "list_all ignores_trash ts \<Longrightarrow> ignores_trash (series ts)"
proof (induction ts)
  case Nil
  then show ?case by (simp add: ignores_trash_def)
next
  case (Cons t ts)
  then have t: "ignores_trash t" and ts: "ignores_trash (series ts)" by simp_all
  show ?case
    unfolding ignores_trash_def
  proof (intro allI impI, elim conjE)
    fix c1 c2 :: cursor assume nf: "\<not> finalized c1" and to: "trash_only c1 c2"
    from t nf to have a: "task_alike (t c1) (t c2)" by (simp add: ignores_trash_def)
    show "task_alike (series (t # ts) c1) (series (t # ts) c2)"
    proof (cases "t c1")
      case (Called e1 r1 d1)
      with a obtain r2 d2 where 2: "t c2 = Called e1 r2 d2" "\<not> finalized d1" "trash_only d1 d2"
        by (cases "t c2") auto
      with Called ts show ?thesis by (simp add: ignores_trash_def)
    next
      case (Thrown e1 d1)
      with a obtain d2 where "t c2 = Thrown e1 d2" "\<not> finalized d1" "trash_only d1 d2"
        by (cases "t c2") auto
      with Thrown show ?thesis by simp
    qed
  qed
qed

lemma ignores_builtin:
  assumes "ignores_trash (finalizer (autocomplete_filter e))"
  shows "ignores_trash (series (map finalizer (builtin_filters e)))"
  by (rule ignores_series)
     (simp add: builtin_filters_def assms ignores_criteria ignores_addLateCriteria ignores_and
        ignores_projection ignores_defaultSort ignores_sort ignores_skip ignores_limit
        ignores_perPage ignores_page ignores_permission ignores_search ignores_tag ignores_tags
        ignores_trash_filter ignores_published ignores_explicitOrder ignores_type ignores_joins
        ignores_addUrls)

lemma trash_only_criteria:
  "trash_only c1 c2 \<Longrightarrow> get_state c1 ''criteria'' = get_state c2 ''criteria''"
  by (simp add: trash_only_def get_state_def)

lemma finalize_alike:
  assumes ac: "ignores_trash (finalizer (autocomplete_filter e))"
    and "\<not> finalized c1" and "trash_only c1 c2"
  shows "map_option final_criteria (finalize k (builtin_filters e) c1) =
         map_option final_criteria (finalize k (builtin_filters e) c2)"
  using assms(2,3)
proof (induction k arbitrary: c1 c2)
  case 0
  then show ?case by simp
next
  case (Suc k)
  let ?s = "series (map finalizer (builtin_filters e))"
  from Suc.prems have nf2: "\<not> finalized c2" by (simp add: trash_only_def)
  from ignores_builtin [OF ac] Suc.prems have a: "task_alike (?s c1) (?s c2)"
    by (simp add: ignores_trash_def)
  show ?case
  proof (cases "?s c1")
    case (Called e1 r1 d1)
    with a obtain r2 d2 where 2: "?s c2 = Called e1 r2 d2" "\<not> finalized d1" "trash_only d1 d2"
      by (cases "?s c2") auto
    show ?thesis
    proof (cases "truthy e1 \<and> e1 = String ''refinalize''")
      case True
      with Called 2 Suc.prems nf2 Suc.IH [OF 2(2,3)] show ?thesis by simp
    next
      case False
      with Called 2 Suc.prems nf2 trash_only_criteria [OF 2(3)] show ?thesis
        by (auto simp: final_criteria_def get_state_def)
    qed
  next
    case (Thrown e1 d1)
    with a obtain d2 where 2: "?s c2 = Thrown e1 d2" "\<not> finalized d1" "trash_only d1 d2"
      by (cases "?s c2") auto
    with Thrown Suc.prems nf2 trash_only_criteria [OF 2(3)] show ?thesis
      by (simp add: final_criteria_def)
  qed
qed

lemma no_error_finalizer:
  assumes "\<And>f. finalize_fn d \<noteq> Finalize1 f"
  shows "no_error (finalizer d)"
  unfolding no_error_def
proof
  fix c show "case finalizer d c of Called err r c' \<Rightarrow> err = Null | Thrown e c' \<Rightarrow> True"
    using assms
    by (cases "finalize_fn d")
       (auto simp: finalizer_def split: prod.splits option.splits sum.splits)
qed

lemma no_error_series: "list_all no_error ts \<Longrightarrow> no_error (series ts)"
proof (induction ts)
  case Nil
  then show ?case by (simp add: no_error_def)
next
  case (Cons t ts)
  then have t: "no_error t" and ts: "no_error (series ts)" by simp_all
  show ?case
    unfolding no_error_def
  proof
    fix c
    show "case series (t # ts) c of Called err r c' \<Rightarrow> err = Null | Thrown e c' \<Rightarrow> True"
    proof (cases "t c")
      case (Called err r c')
      with t have "err = Null" by (auto simp: no_error_def split: task_result.splits)
      with Called ts show ?thesis by (simp add: no_error_def)
    next
      case (Thrown e c')
      then show ?thesis by simp
    qed
  qed
qed

lemma builtin_split2:
  "builtin_filters e = pre_autocomplete e @ autocomplete_filter e # post_autocomplete e"
  by (simp add: builtin_filters_def pre_autocomplete_def pre_page_def post_autocomplete_def)

lemma no_error_pre: "no_error (series (map finalizer (pre_autocomplete e)))"
  by (rule no_error_series)
     (simp add: pre_autocomplete_def pre_page_def no_error_finalizer filter_defs returning_def)

lemma no_error_post: "no_error (series (map finalizer (post_autocomplete e)))"
  by (rule no_error_series)
     (simp add: post_autocomplete_def no_error_finalizer filter_defs returning_def)

text \<open>
  In a pass over the built-in finalizers an error can only come from the finalizer of
  \<open>autocomplete\<close>: the others take no callback.
\<close>

lemma builtin_pass:
  "(\<exists>e' c'. series (map finalizer (builtin_filters e)) c = Thrown e' c') \<or>
   (\<exists>r c'. series (map finalizer (builtin_filters e)) c = Called Null r c') \<or>
   (\<exists>err r c3 c'. finalizer (autocomplete_filter e) c3 = Called err r c' \<and>
      series (map finalizer (builtin_filters e)) c = Called err Undefined c')"
proof (cases "series (map finalizer (pre_autocomplete e)) c")
  case (Thrown e1 c1)
  then show ?thesis by (simp add: builtin_split2 series_append)
next
  case (Called err1 r1 c1)
  with no_error_pre [of e] have e1: "err1 = Null"
    by (auto simp: no_error_def split: task_result.splits)
  show ?thesis
  proof (cases "finalizer (autocomplete_filter e) c1")
    case (Thrown e2 c2)
    with Called e1 show ?thesis by (simp add: builtin_split2 series_append)
  next
    case c2: (Called err2 r2 c2)
    show ?thesis
    proof (cases "truthy err2")
      case True
      with Called e1 c2 have
        "series (map finalizer (builtin_filters e)) c = Called err2 Undefined c2"
        by (simp add: builtin_split2 series_append)
      with c2 show ?thesis by blast
    next
      case False
      with Called e1 c2 have s:
        "series (map finalizer (builtin_filters e)) c =
         series (map finalizer (post_autocomplete e)) c2"
        by (simp add: builtin_split2 series_append)
      show ?thesis
      proof (cases "series (map finalizer (post_autocomplete e)) c2")
        case (Thrown e3 c3)
        with s show ?thesis by simp
      next
        case (Called err3 r3 c3)
        with no_error_post [of e] have "err3 = Null"
          by (auto simp: no_error_def split: task_result.splits)
        with Called s show ?thesis by simp
      qed
    qed
  qed
qed

lemma finalize_returns:
  assumes "never_refinalize (finalizer (autocomplete_filter e))"
  shows "finalize (Suc k) (builtin_filters e) c \<noteq> None"
proof -
  from builtin_pass [of e c] show ?thesis
  proof (elim disjE exE conjE)
    fix e' c' assume "series (map finalizer (builtin_filters e)) c = Thrown e' c'"
    then show ?thesis by simp
  next
    fix r c' assume "series (map finalizer (builtin_filters e)) c = Called Null r c'"
    then show ?thesis by simp
  next
    fix err r c3 c' assume a: "finalizer (autocomplete_filter e) c3 = Called err r c'"
      and s: "series (map finalizer (builtin_filters e)) c = Called err Undefined c'"
    from assms a have "err \<noteq> String ''refinalize''"
      by (auto simp: never_refinalize_def split: task_result.splits)
    with s show ?thesis by simp
  qed
qed

lemma trash_false_only:
  assumes "\<not> finalized c" and "get_state c ''trash'' = Undefined"
  shows "\<not> finalized (trash_false e c) \<and> trash_only (trash_false e c) c"
  using assms
  by (simp add: trash_false_def filter_method_def trash_filter_def simple_filter_def
      default_set_def set_state_def get_state_def arg_def trash_only_def)

lemma conjoined_self: "conjoined x x"
  by (subst conjoined.simps) simp

lemma conjoined_and: "conjoined x v \<Longrightarrow> conjoined x (Object [(''$and'', Array [v, y])])"
  by (subst conjoined.simps) simp

lemma conjoined_new: "conjoined x (Object [(''$and'', Array [v, x])])"
  by (subst conjoined.simps) simp

lemma conjoined_truthy: "truthy x \<Longrightarrow> conjoined x v \<Longrightarrow> truthy v"
  by (subst (asm) conjoined.simps) (auto split: jsval.splits list.splits prod.splits)


lemma self_and_carries:
  assumes "\<not> finalized c" and "truthy x" and "conjoined x (state c ''criteria'')"
  shows "\<not> finalized (snd (self_and y c)) \<and> conjoined x (state (snd (self_and y c)) ''criteria'')"
proof -
  from conjoined_truthy [OF assms(2,3)] have t: "truthy (state c ''criteria'')" .
  show ?thesis
    using assms(1,3) t
    by (simp add: self_and_unfinalized [OF assms(1)] set_state_def conjoined_and)
qed

lemma sync_carries:
  assumes "set_fn d = None" and "finalize_fn d = returning f"
    and "filter_name d \<noteq> ''criteria''"
    and "\<And>c. \<not> finalized c \<Longrightarrow> conjoined x (state c ''criteria'') \<Longrightarrow>
           \<not> finalized (snd (f c)) \<and> conjoined x (state (snd (f c)) ''criteria'')"
  shows "carries x (finalizer d)"
  unfolding carries_def
proof (intro allI impI, elim conjE)
  fix c :: cursor assume nf: "\<not> finalized c" and cj: "conjoined x (state c ''criteria'')"
  define c0 where "c0 = (if state c (filter_name d) = Undefined
                         then set_state (filter_name d) (def_value d) c else c)"
  have c0: "\<not> finalized c0" "conjoined x (state c0 ''criteria'')"
    using nf cj assms(3) by (auto simp: c0_def set_state_def)
  have ad: "apply_default d c = (None, c0)"
    using nf assms(1)
    by (simp add: apply_default_def filter_method_def default_set_def get_state_def arg_def c0_def)
  from assms(4) [OF c0] have f: "\<not> finalized (snd (f c0))"
    "conjoined x (state (snd (f c0)) ''criteria'')" by simp_all
  obtain r c' where fc: "f c0 = (r, c')" by (cases "f c0")
  with f have c': "\<not> finalized c'" "conjoined x (state c' ''criteria'')" by simp_all
  show "\<not> finalized (task_cursor (finalizer d c)) \<and>
        conjoined x (state (task_cursor (finalizer d c)) ''criteria'')"
    using ad fc c' assms(2)
    by (cases r) (simp_all add: finalizer_def returning_def)
qed

lemma plain_carries:
  assumes "set_fn d = None" and "finalize_fn d = NoFinalize"
    and "filter_name d \<noteq> ''criteria''"
  shows "carries x (finalizer d)"
  using assms
  by (auto simp: carries_def finalizer_def apply_default_def filter_method_def default_set_def
      get_state_def set_state_def arg_def)

lemma carries_published: "truthy x \<Longrightarrow> carries x (finalizer (published_filter e))"
  by (rule sync_carries [where f = published_finalize])
     (simp_all add: published_filter_def simple_filter_def published_finalize_def Let_def
        get_state_def self_and_carries)

lemma carries_type: "truthy x \<Longrightarrow> carries x (finalizer type_filter)"
  by (rule sync_carries [where f = type_finalize])
     (simp_all add: type_filter_def simple_filter_def type_finalize_def Let_def
        get_state_def self_and_carries)

lemma carries_joins: "carries x (finalizer (joins_filter e))"
  by (rule plain_carries) (simp_all add: joins_filter_def simple_filter_def)

lemma carries_addUrls: "carries x (finalizer (addUrls_filter e))"
  by (rule plain_carries) (simp_all add: addUrls_filter_def simple_filter_def)

lemma carries_explicitOrder: "carries x (finalizer explicitOrder_filter)"
  by (auto simp: carries_def finalizer_def apply_default_def filter_method_def
      explicitOrder_filter_def simple_filter_def explicitOrder_set_def get_state_def
      set_state_def arg_def)

lemma carries_series: "list_all (carries x) ts \<Longrightarrow> carries x (series ts)"
proof (induction ts)
  case Nil
  then show ?case by (simp add: carries_def)
next
  case (Cons t ts)
  then have t: "carries x t" and ts: "carries x (series ts)" by simp_all
  show ?case
    unfolding carries_def
  proof (intro allI impI, elim conjE)
    fix c :: cursor assume nf: "\<not> finalized c" and cj: "conjoined x (state c ''criteria'')"
    from t nf cj have a: "\<not> finalized (task_cursor (t c))"
      "conjoined x (state (task_cursor (t c)) ''criteria'')" by (simp_all add: carries_def)
    show "\<not> finalized (task_cursor (series (t # ts) c)) \<and>
          conjoined x (state (task_cursor (series (t # ts) c)) ''criteria'')"
    proof (cases "t c")
      case (Called err r c')
      with a ts show ?thesis by (simp add: carries_def)
    next
      case (Thrown err c')
      with a show ?thesis by simp
    qed
  qed
qed

lemma carries_post: "truthy x \<Longrightarrow> carries x (series (map finalizer (post_trash e)))"
  by (rule carries_series)
     (simp add: post_trash_def carries_published carries_explicitOrder carries_type
        carries_joins carries_addUrls)

lemma builtin_split3:
  "builtin_filters e = pre_trash e @ trash_filter e # post_trash e"
  by (simp add: builtin_filters_def pre_trash_def post_trash_def)

lemma ignores_pre_trash:
  assumes "ignores_trash (finalizer (autocomplete_filter e))"
  shows "ignores_trash (series (map finalizer (pre_trash e)))"
  by (rule ignores_series)
     (simp add: pre_trash_def assms ignores_criteria ignores_addLateCriteria ignores_and
        ignores_projection ignores_defaultSort ignores_sort ignores_skip ignores_limit
        ignores_perPage ignores_page ignores_permission ignores_search ignores_tag ignores_tags)

text \<open>
  The finalizer of \<open>trash\<close>, run on a cursor whose value of \<open>trash\<close> is \<open>false\<close> or
  \<open>undefined\<close>, conjoins the clause.
\<close>

lemma trash_finalizer_conjoins:
  assumes "\<not> finalized c"
    and "state c ''trash'' = Boolean False \<or> state c ''trash'' = Undefined"
  shows "\<exists>r c'. finalizer (trash_filter e) c = Called Null r c' \<and> \<not> finalized c' \<and>
           conjoined not_trash (state c' ''criteria'')"
proof -
  define c0 where "c0 = (if state c ''trash'' = Undefined
                         then set_state ''trash'' Undefined c else c)"
  have c0: "\<not> finalized c0" "\<not> truthy (state c0 ''trash'')" "state c0 ''trash'' \<noteq> Null"
    using assms by (auto simp: c0_def set_state_def)
  have ad: "apply_default (trash_filter e) c = (None, c0)"
    using assms(1)
    by (simp add: apply_default_def trash_filter_def simple_filter_def get_state_def
        filter_method_def default_set_def arg_def c0_def)
  have tf: "trash_finalize c0 = self_and not_trash c0"
    using c0(2,3) by (simp add: trash_finalize_def get_state_def)
  have nt: "truthy not_trash" by (simp add: not_trash_def)
  have "conjoined not_trash (state (snd (self_and not_trash c0)) ''criteria'')"
    by (simp add: self_and_unfinalized [OF c0(1)] nt set_state_def conjoined_self conjoined_new)
  moreover have "\<not> finalized (snd (self_and not_trash c0))" "fst (self_and not_trash c0) = None"
    using c0(1) by (simp_all add: self_and_simps)
  ultimately show ?thesis
    using ad tf
    by (cases "self_and not_trash c0")
       (simp add: finalizer_def trash_filter_def simple_filter_def returning_def)
qed

lemma pass_conjoins:
  assumes ac: "ignores_trash (finalizer (autocomplete_filter e))"
    and nf: "\<not> finalized c1" and to: "trash_only c1 c2"
    and s: "series (map finalizer (builtin_filters e)) c1 = Called err r d1"
    and ok: "\<not> truthy err"
  shows "conjoined not_trash (state d1 ''criteria'')"
proof -
  let ?pre = "series (map finalizer (pre_trash e))"
  let ?post = "series (map finalizer (post_trash e))"
  from ignores_pre_trash [OF ac] nf to have a: "task_alike (?pre c1) (?pre c2)"
    by (simp add: ignores_trash_def)
  show ?thesis
  proof (cases "?pre c1")
    case (Thrown e1 m1)
    with s show ?thesis by (simp add: builtin_split3 series_append)
  next
    case (Called e1 r1 m1)
    with a obtain r2 m2 where m: "\<not> finalized m1" "trash_only m1 m2"
      by (cases "?pre c2") auto
    from m(2) have tr: "state m1 ''trash'' = Boolean False" by (simp add: trash_only_def)
    have e1: "\<not> truthy e1"
    proof
      assume "truthy e1"
      with Called s have "err = e1" by (simp add: builtin_split3 series_append)
      with \<open>truthy e1\<close> ok show False by simp
    qed
    from trash_finalizer_conjoins [OF m(1), of e] tr obtain r3 m3 where
      t: "finalizer (trash_filter e) m1 = Called Null r3 m3" "\<not> finalized m3"
         "conjoined not_trash (state m3 ''criteria'')" by blast
    from Called e1 t(1) s have p: "?post m3 = Called err r d1"
      by (simp add: builtin_split3 series_append)
    have nt: "truthy not_trash" by (simp add: not_trash_def)
    from carries_post [OF nt, of e] t(2,3)
    have "conjoined not_trash (state (task_cursor (?post m3)) ''criteria'')"
      by (simp add: carries_def)
    with p show ?thesis by simp
  qed
qed

lemma finalize_conjoins:
  assumes ac: "ignores_trash (finalizer (autocomplete_filter e))"
    and "\<not> finalized c1" and "trash_only c1 c2"
    and "finalize k (builtin_filters e) c1 = Some (Success u d)"
  shows "conjoined not_trash (get_state d ''criteria'')"
  using assms(2-)
proof (induction k arbitrary: c1 c2)
  case 0
  then show ?case by simp
next
  case (Suc k)
  let ?s = "series (map finalizer (builtin_filters e))"
  from ignores_builtin [OF ac] Suc.prems(1,2) have a: "task_alike (?s c1) (?s c2)"
    by (simp add: ignores_trash_def)
  show ?case
  proof (cases "?s c1")
    case (Called e1 r1 d1)
    with a obtain r2 d2 where 2: "\<not> finalized d1" "trash_only d1 d2"
      by (cases "?s c2") auto
    show ?thesis
    proof (cases "truthy e1")
      case True
      show ?thesis
      proof (cases "e1 = String ''refinalize''")
        case r: True
        with True Called Suc.prems have "finalize k (builtin_filters e) d1 = Some (Success u d)"
          by simp
        from Suc.IH [OF 2 this] show ?thesis .
      next
        case False
        with True Called Suc.prems show ?thesis by simp
      qed
    next
      case False
      with Called Suc.prems have d: "d = d1\<lparr>finalized := True\<rparr>" by simp
      from pass_conjoins [OF ac Suc.prems(1,2) Called False]
      show ?thesis by (simp add: d get_state_def)
    qed
  next
    case (Thrown e1 d1)
    with Suc.prems show ?thesis by simp
  qed
qed

text \<open>
  Claim C7. Take a cursor that is not finalized and on which \<open>trash\<close> has not been called
  (its value is \<open>undefined\<close>). Finalizing it, and finalizing it after \<open>trash(false)\<close>, end
  the same way and leave the same criteria, for every number of passes allowed. Whenever
  either finalization succeeds, the clause that excludes the trash,
  \<open>{ $or: [ { trash: { $exists: 0 } }, { trash: false } ] }\<close>, is conjoined in the criteria it
  leaves. Both finalizations end, in one pass, when the finalizer of \<open>autocomplete\<close> never
  asks for another pass. The finalizer of \<open>autocomplete\<close>, which is not among the sources,
  is asked not to look at the value of \<open>trash\<close>.
\<close>

theorem trash_false_same_criteria:
  assumes "\<not> finalized c" and "get_state c ''trash'' = Undefined"
    and "ignores_trash (finalizer (autocomplete_filter e))"
  shows "(\<forall>k. map_option final_criteria (finalize k (builtin_filters e) (trash_false e c)) =
              map_option final_criteria (finalize k (builtin_filters e) c))
         \<and> (\<forall>k out. (finalize k (builtin_filters e) (trash_false e c) = Some out \<or>
                      finalize k (builtin_filters e) c = Some out) \<and> succeeded out \<longrightarrow>
              conjoined
                (Object [(''$or'', Array [Object [(''trash'', Object [(''$exists'', Number (Fin 0))])],
                                          Object [(''trash'', Boolean False)]])])
                (get_state (cursor_of out) ''criteria''))
         \<and> (never_refinalize (finalizer (autocomplete_filter e)) \<longrightarrow>
              finalize 1 (builtin_filters e) (trash_false e c) \<noteq> None
              \<and> finalize 1 (builtin_filters e) c \<noteq> None)"
proof (intro conjI allI impI)
  fix k
  from trash_false_only [OF assms(1,2), of e]
  show "map_option final_criteria (finalize k (builtin_filters e) (trash_false e c)) =
        map_option final_criteria (finalize k (builtin_filters e) c)"
    using finalize_alike [OF assms(3)] by blast
next
  fix k out
  let ?x = "Object [(''$or'', Array [Object [(''trash'', Object [(''$exists'', Number (Fin 0))])],
                                     Object [(''trash'', Boolean False)]])]"
  assume a: "(finalize k (builtin_filters e) (trash_false e c) = Some out \<or>
              finalize k (builtin_filters e) c = Some out) \<and> succeeded out"
  from trash_false_only [OF assms(1,2), of e]
  have nf: "\<not> finalized (trash_false e c)" and to: "trash_only (trash_false e c) c" by simp_all
  from finalize_alike [OF assms(3) nf to, of k]
  have eq: "map_option final_criteria (finalize k (builtin_filters e) (trash_false e c)) =
            map_option final_criteria (finalize k (builtin_filters e) c)" .
  from a obtain u d where out: "out = Success u d" by (cases out) simp_all
  have "\<exists>u' d'. finalize k (builtin_filters e) (trash_false e c) = Some (Success u' d') \<and>
          get_state d' ''criteria'' = get_state d ''criteria''"
  proof (cases "finalize k (builtin_filters e) (trash_false e c) = Some out")
    case True
    with out show ?thesis by simp
  next
    case False
    with a have 2: "finalize k (builtin_filters e) c = Some (Success u d)" by (simp add: out)
    with eq obtain out' where o: "finalize k (builtin_filters e) (trash_false e c) = Some out'"
      "final_criteria out' = final_criteria (Success u d)" by (auto simp: map_option_case split: option.splits)
    from o(2) show ?thesis using o(1) by (cases out') (simp_all add: final_criteria_def)
  qed
  then obtain u' d' where
    f: "finalize k (builtin_filters e) (trash_false e c) = Some (Success u' d')"
    and c: "get_state d' ''criteria'' = get_state d ''criteria''" by blast
  from finalize_conjoins [OF assms(3) nf to f]
  show "conjoined ?x (get_state (cursor_of out) ''criteria'')"
    by (simp add: c out not_trash_def)
next
  assume nr: "never_refinalize (finalizer (autocomplete_filter e))"
  from finalize_returns [OF nr, of 0]
  show "finalize 1 (builtin_filters e) (trash_false e c) \<noteq> None"
    and "finalize 1 (builtin_filters e) c \<noteq> None" by simp_all
qed

theorem trash_false_same_criteria_witness:
  "\<not> finalized new_cursor \<and> get_state new_cursor ''trash'' = Undefined
   \<and> ignores_trash (finalizer (autocomplete_filter example_env))
   \<and> (\<exists>out. finalize 1 (builtin_filters example_env) new_cursor = Some out \<and>
         succeeded out \<and>
         map_option final_criteria
           (finalize 1 (builtin_filters example_env) (trash_false example_env new_cursor)) =
         Some (final_criteria out) \<and>
         conjoined
           (Object [(''$or'', Array [Object [(''trash'', Object [(''$exists'', Number (Fin 0))])],
                                     Object [(''trash'', Boolean False)]])])
           (get_state (cursor_of out) ''criteria''))"
proof -
  have nf: "\<not> finalized new_cursor" and tr: "get_state new_cursor ''trash'' = Undefined"
    by (simp_all add: new_cursor_def get_state_def)
  have ac: "ignores_trash (finalizer (autocomplete_filter example_env))"
    unfolding ignores_trash_def
  proof (intro allI impI, elim conjE)
    fix c1 c2 :: cursor assume n: "\<not> finalized c1" and to: "trash_only c1 c2"
    have nf2: "\<not> finalized c2" using n to by (simp add: trash_only_def)
    have eq: "state c1 ''autocomplete'' = state c2 ''autocomplete''"
      using to by (simp add: trash_only_state)
    show "task_alike (finalizer (autocomplete_filter example_env) c1)
                     (finalizer (autocomplete_filter example_env) c2)"
      using n nf2 to eq
      by (simp add: finalizer_def apply_default_def filter_method_def autocomplete_filter_def
          simple_filter_def example_env_def default_set_def get_state_def arg_def trash_only_set)
         (simp add: set_state_def)
  qed
  have nr: "never_refinalize (finalizer (autocomplete_filter example_env))"
    by (auto simp: never_refinalize_def finalizer_def apply_default_def filter_method_def
        autocomplete_filter_def simple_filter_def example_env_def default_set_def
        split: task_result.splits prod.splits option.splits if_splits)
  note t = trash_false_same_criteria [OF nf tr ac]
  from t nr obtain out where
    out: "finalize 1 (builtin_filters example_env) new_cursor = Some out" by blast
  from t have "map_option final_criteria
           (finalize 1 (builtin_filters example_env) (trash_false example_env new_cursor)) =
         map_option final_criteria (finalize 1 (builtin_filters example_env) new_cursor)"
    by blast
  with out have eq: "map_option final_criteria
           (finalize 1 (builtin_filters example_env) (trash_false example_env new_cursor)) =
         Some (final_criteria out)" by simp
  have "map_option succeeded (finalize 1 (builtin_filters example_env) new_cursor) = Some True"
    by code_simp
  with out have su: "succeeded out" by simp
  from t out su have "conjoined
           (Object [(''$or'', Array [Object [(''trash'', Object [(''$exists'', Number (Fin 0))])],
                                     Object [(''trash'', Boolean False)]])])
           (get_state (cursor_of out) ''criteria'')" by blast
  with out su eq nf tr ac show ?thesis by blast
qed

subsection \<open>An explicit join selector\<close>

lemma map_of_put_key: "k \<noteq> ''__proto__'' \<Longrightarrow> map_of (put_key k v kvs) = (map_of kvs)(k \<mapsto> v)"
  by (induction kvs) (auto simp: fun_eq_iff)















subsection \<open>Groups in the composed schema: one contiguous run each\<close>

lemma set_remove_first: "set (remove_first P xs) \<subseteq> set xs"
  by (induction xs) auto

lemma distinct_remove_first: "distinct xs \<Longrightarrow> distinct (remove_first P xs)"
  using set_remove_first [of P] by (induction xs) auto

lemma find_None_remove_first: "find P xs = None \<Longrightarrow> remove_first P xs = xs"
  by (induction xs) (auto split: if_splits)

lemma find_Some_mem: "find P xs = Some a \<Longrightarrow> a \<in> set xs \<and> P a"
  by (induction xs) (auto split: if_splits)

lemma find_Some_remove_first:
  "find P xs = Some a \<Longrightarrow> distinct xs \<Longrightarrow> set (remove_first P xs) = set xs - {a}"
proof (induction xs)
  case Nil
  then show ?case by simp
next
  case (Cons x xs)
  show ?case
  proof (cases "P x")
    case True
    with Cons.prems have "a = x" "x \<notin> set xs" by simp_all
    with True show ?thesis by simp
  next
    case False
    with Cons.prems have f: "find P xs = Some a" and d: "distinct xs" by simp_all
    from find_Some_mem [OF f] False have "a \<noteq> x" by blast
    with Cons.IH [OF f d] False show ?thesis by (simp add: insert_Diff_if)
  qed
qed

lemma remove_first_no_match:
  "distinct (map f xs) \<Longrightarrow> x \<in> set (remove_first (\<lambda>y. f y = k) xs) \<Longrightarrow> f x \<noteq> k"
proof (induction xs)
  case Nil
  then show ?case by simp
next
  case (Cons a xs)
  show ?case
  proof (cases "f a = k")
    case True
    with Cons.prems have "x \<in> set xs" and "f a \<notin> f ` set xs" by simp_all
    then have "f x \<noteq> f a" by (metis imageI)
    with True show ?thesis by simp
  next
    case False
    with Cons.prems have "x = a \<or> x \<in> set (remove_first (\<lambda>y. f y = k) xs)"
      and "distinct (map f xs)" by simp_all
    with Cons.IH False show ?thesis by blast
  qed
qed

lemma distinct_map_remove_first:
  "distinct (map f xs) \<Longrightarrow> distinct (map f (remove_first P xs))"
proof (induction xs)
  case Nil
  then show ?case by simp
next
  case (Cons x xs)
  then show ?case using set_remove_first [of P xs] by auto
qed

lemma sorted_map_remove_first:
  "sorted (map r xs) \<Longrightarrow> sorted (map (r :: 'a \<Rightarrow> nat) (remove_first P xs))"
proof (induction xs)
  case Nil
  then show ?case by simp
next
  case (Cons x xs)
  then show ?case using set_remove_first [of P xs] by auto
qed

lemma pos_less: "x \<in> set xs \<Longrightarrow> pos xs x < length xs"
  by (induction xs) auto

lemma pos_append: "x \<in> set xs \<Longrightarrow> pos (xs @ ys) x = pos xs x"
  by (induction xs) auto

lemma pos_append_new: "x \<notin> set xs \<Longrightarrow> pos (xs @ x # ys) x = length xs"
  by (induction xs) auto

lemma pos_inj: "x \<in> set xs \<Longrightarrow> pos xs x = pos xs y \<Longrightarrow> x = y"
  by (induction xs) (auto split: if_splits)

lemma pos_hd: "xs \<noteq> [] \<Longrightarrow> pos xs (hd xs) = 0"
  by (cases xs) auto

text \<open>A list sorted by a rank that tells its elements apart is contiguous.\<close>

lemma ranked_contiguous:
  fixes r :: "'a \<Rightarrow> nat"
  assumes "sorted (map r ks)" and "inj_on r (set ks)"
  shows "contiguous ks"
  using assms
proof (induction ks)
  case Nil
  then show ?case by simp
next
  case (Cons x xs)
  have "x \<notin> set (dropWhile (\<lambda>y. y = x) xs)"
  proof
    assume x: "x \<in> set (dropWhile (\<lambda>y. y = x) xs)"
    then have ne: "dropWhile (\<lambda>y. y = x) xs \<noteq> []" by (metis empty_iff empty_set)
    define y where "y = hd (dropWhile (\<lambda>y. y = x) xs)"
    define zs where "zs = tl (dropWhile (\<lambda>y. y = x) xs)"
    have d: "dropWhile (\<lambda>y. y = x) xs = y # zs" using ne by (simp add: y_def zs_def)
    have yx: "y \<noteq> x" using hd_dropWhile [OF ne] by (simp add: y_def)
    have xs: "xs = takeWhile (\<lambda>y. y = x) xs @ y # zs"
      using d takeWhile_dropWhile_id [of "\<lambda>y. y = x" xs] by simp
    have ymem: "y \<in> set xs" by (subst xs) simp
    from yx x d have xz: "x \<in> set zs" by auto
    have s: "sorted (map r xs)" using Cons.prems by simp
    have "sorted (map r (takeWhile (\<lambda>y. y = x) xs @ y # zs))" using s xs by simp
    then have "sorted (map r (y # zs))" by (simp add: sorted_append)
    with xz have 1: "r y \<le> r x" by auto
    from Cons.prems ymem have 2: "r x \<le> r y" by auto
    from 1 2 have "r x = r y" by simp
    with Cons.prems(2) ymem have "x = y" by (auto simp: inj_on_def)
    with yx show False by simp
  qed
  moreover have "contiguous xs"
    using Cons by (auto simp: inj_on_def)
  ultimately show ?case by simp
qed

lemma kept_gk: "kept h a \<Longrightarrow> group_name h a = Some (gk h a) \<and> gk h a \<noteq> []"
  by (auto simp: kept_def gk_def split: option.splits)

lemma step_not_kept: "\<not> kept h a \<Longrightarrow> stabilize_step h st a = st"
  by (cases st) (auto simp: stabilize_step_def kept_def split: option.splits)

lemma step_kept:
  "kept h a \<Longrightarrow>
   stabilize_step h (acc, idx) a =
     (case idx (gk h a) of
        Some i \<Rightarrow> (splice_in i a acc, idx(gk h a \<mapsto> Suc i))
      | None \<Rightarrow> (acc @ [a], idx(gk h a \<mapsto> Suc (length acc))))"
  by (auto simp: stabilize_step_def kept_def gk_def split: option.splits)

lemma fold_filter_kept:
  "foldl (stabilize_step h) st xs = foldl (stabilize_step h) st (filter (kept h) xs)"
  by (induction xs arbitrary: st) (simp_all add: step_not_kept)

lemma indexed_empty: "indexed r h [] Map.empty"
  by (simp add: indexed_def)

lemma phase1_step:
  assumes k: "kept h x"
    and s: "sorted (map (\<lambda>a. r (gk h a)) (acc @ [x]))"
    and i: "inj_on r (gk h ` set (acc @ [x]))"
    and j: "indexed r h acc idx"
  shows "\<exists>idx'. stabilize_step h (acc, idx) x = (acc @ [x], idx') \<and> indexed r h (acc @ [x]) idx'"
proof -
  let ?n = "gk h x"
  have le: "\<forall>a\<in>set acc. r (gk h a) \<le> r ?n"
    using s by (auto simp: sorted_append)
  then have all: "filter (\<lambda>a. r (gk h a) \<le> r ?n) acc = acc" by (simp add: filter_id_conv)
  define idx' where "idx' = idx(?n \<mapsto> Suc (length acc))"
  have st: "stabilize_step h (acc, idx) x = (acc @ [x], idx')"
  proof (cases "?n \<in> gk h ` set acc")
    case True
    with j all have "idx ?n = Some (length acc)" by (simp add: indexed_def)
    with k show ?thesis by (simp add: step_kept splice_in_def idx'_def)
  next
    case False
    with j have "idx ?n = None" by (simp add: indexed_def)
    with k show ?thesis by (simp add: step_kept idx'_def)
  qed
  have "indexed r h (acc @ [x]) idx'"
    unfolding indexed_def
  proof
    fix m
    show "idx' m = (if m \<in> gk h ` set (acc @ [x])
                    then Some (length (filter (\<lambda>a. r (gk h a) \<le> r m) (acc @ [x]))) else None)"
    proof (cases "m = ?n")
      case True
      with all show ?thesis by (simp add: idx'_def)
    next
      case False
      show ?thesis
      proof (cases "m \<in> gk h ` set acc")
        case True
        then obtain a where a: "a \<in> set acc" "m = gk h a" by auto
        with le have 1: "r m \<le> r ?n" by simp
        from i a False have "r m \<noteq> r ?n" by (auto simp: inj_on_def)
        with 1 have "\<not> r ?n \<le> r m" by simp
        with j True False show ?thesis by (simp add: idx'_def indexed_def)
      next
        case f: False
        with j False show ?thesis by (simp add: idx'_def indexed_def)
      qed
    qed
  qed
  with st show ?thesis by blast
qed

lemma phase1:
  assumes "\<forall>a\<in>set xs. kept h a"
    and "sorted (map (\<lambda>a. r (gk h a)) (acc @ xs))"
    and "inj_on r (gk h ` set (acc @ xs))"
    and "indexed r h acc idx"
  shows "\<exists>idx'. foldl (stabilize_step h) (acc, idx) xs = (acc @ xs, idx') \<and>
                indexed r h (acc @ xs) idx'"
  using assms
proof (induction xs arbitrary: acc idx)
  case Nil
  then show ?case by simp
next
  case (Cons x xs)
  have s1: "sorted (map (\<lambda>a. r (gk h a)) (acc @ [x]))"
    using Cons.prems(2) by (simp add: sorted_append)
  have i1: "inj_on r (gk h ` set (acc @ [x]))"
    using Cons.prems(3) by (auto simp: inj_on_def)
  from phase1_step [OF _ s1 i1 Cons.prems(4)] Cons.prems(1) obtain idx1 where
    1: "stabilize_step h (acc, idx) x = (acc @ [x], idx1)" "indexed r h (acc @ [x]) idx1"
    by auto
  from Cons.IH [of "acc @ [x]" idx1] Cons.prems 1(2) obtain idx' where
    "foldl (stabilize_step h) (acc @ [x], idx1) xs = ((acc @ [x]) @ xs, idx')"
    "indexed r h ((acc @ [x]) @ xs) idx'" by auto
  with 1(1) show ?case by simp
qed

lemma insertion_run:
  assumes "\<forall>y\<in>set ys. kept h y \<and> gk h y = g"
    and "idx g = Some (length P + length zs)"
  shows "fst (foldl (stabilize_step h) (P @ zs @ R, idx) ys) = P @ zs @ ys @ R"
  using assms
proof (induction ys arbitrary: zs idx)
  case Nil
  then show ?case by simp
next
  case (Cons y ys)
  then have k: "kept h y" and g: "gk h y = g" by simp_all
  have st: "stabilize_step h (P @ zs @ R, idx) y =
            (P @ (zs @ [y]) @ R, idx(g \<mapsto> Suc (length P + length zs)))"
    using k g Cons.prems(2) by (simp add: step_kept splice_in_def)
  have "fst (foldl (stabilize_step h) (P @ (zs @ [y]) @ R, idx(g \<mapsto> Suc (length P + length zs))) ys)
        = P @ (zs @ [y]) @ ys @ R"
    by (rule Cons.IH) (use Cons.prems in simp_all)
  with st show ?case by simp
qed

lemma partition_min:
  fixes f :: "'a \<Rightarrow> nat"
  assumes "sorted (map f xs)" and "\<forall>a\<in>set xs. m \<le> f a"
  shows "xs = filter (\<lambda>a. f a = m) xs @ filter (\<lambda>a. f a \<noteq> m) xs"
  using assms
proof (induction xs)
  case Nil
  then show ?case by simp
next
  case (Cons x xs)
  show ?case
  proof (cases "f x = m")
    case True
    with Cons show ?thesis by simp
  next
    case False
    with Cons.prems have "\<forall>a\<in>set xs. f a \<noteq> m" by fastforce
    then have "filter (\<lambda>a. f a = m) xs = []" "filter (\<lambda>a. f a \<noteq> m) xs = xs"
      by (simp_all add: filter_empty_conv filter_id_conv)
    with False show ?thesis by simp
  qed
qed

lemma stabilize_shape:
  fixes r :: "string \<Rightarrow> nat"
  assumes kx: "\<forall>a\<in>set X. kept h a"
    and ky: "\<forall>y\<in>set Y. kept h y \<and> gk h y = g0"
    and s: "sorted (map (\<lambda>a. r (gk h a)) X)"
    and i: "inj_on r (insert g0 (gk h ` set X))"
    and m: "\<forall>a\<in>set X. r g0 \<le> r (gk h a)"
  shows "stabilize h (X @ Y) =
           (if g0 \<in> gk h ` set X
            then filter (\<lambda>a. gk h a = g0) X @ Y @ filter (\<lambda>a. gk h a \<noteq> g0) X
            else X @ Y)"
proof -
  have i': "inj_on r (gk h ` set ([] @ X))" using i by (auto simp: inj_on_def)
  from phase1 [of X h r "[]" Map.empty] kx s i' indexed_empty obtain idx where
    p1: "foldl (stabilize_step h) ([], Map.empty) X = (X, idx)" and j: "indexed r h X idx"
    by auto
  have eqr: "r (gk h a) = r g0 \<longleftrightarrow> gk h a = g0" if "a \<in> set X" for a
    using i that by (auto simp: inj_on_def)
  have part: "X = filter (\<lambda>a. gk h a = g0) X @ filter (\<lambda>a. gk h a \<noteq> g0) X"
  proof -
    have "X = filter (\<lambda>a. r (gk h a) = r g0) X @ filter (\<lambda>a. r (gk h a) \<noteq> r g0) X"
      by (rule partition_min [OF s m])
    moreover have "filter (\<lambda>a. r (gk h a) = r g0) X = filter (\<lambda>a. gk h a = g0) X"
      by (rule filter_cong) (simp_all add: eqr)
    moreover have "filter (\<lambda>a. r (gk h a) \<noteq> r g0) X = filter (\<lambda>a. gk h a \<noteq> g0) X"
      by (rule filter_cong) (simp_all add: eqr)
    ultimately show ?thesis by simp
  qed
  let ?P = "filter (\<lambda>a. gk h a = g0) X" and ?R = "filter (\<lambda>a. gk h a \<noteq> g0) X"
  show ?thesis
  proof (cases "g0 \<in> gk h ` set X")
    case True
    have "filter (\<lambda>a. r (gk h a) \<le> r g0) X = ?P"
    proof (rule filter_cong)
      fix a assume a: "a \<in> set X"
      with m have "r g0 \<le> r (gk h a)" by simp
      then show "(r (gk h a) \<le> r g0) = (gk h a = g0)" using eqr [OF a] by auto
    qed simp
    with j True have ig: "idx g0 = Some (length ?P + length ([] :: addr list))"
      by (simp add: indexed_def)
    have "fst (foldl (stabilize_step h) (?P @ [] @ ?R, idx) Y) = ?P @ [] @ Y @ ?R"
      using insertion_run [of Y h g0 idx ?P "[]" ?R] ky ig by blast
    then have "fst (foldl (stabilize_step h) (X, idx) Y) = ?P @ Y @ ?R"
      using part by simp
    with True p1 show ?thesis by (simp add: stabilize_def)
  next
    case False
    with j have ig: "idx g0 = None" by (simp add: indexed_def)
    have "fst (foldl (stabilize_step h) (X, idx) Y) = X @ Y"
    proof (cases Y)
      case Nil
      then show ?thesis by simp
    next
      case (Cons y Y')
      with ky have k: "kept h y" "gk h y = g0" and ky': "\<forall>y\<in>set Y'. kept h y \<and> gk h y = g0"
        by simp_all
      have st: "stabilize_step h (X, idx) y = (X @ [y] @ [], idx(g0 \<mapsto> Suc (length X)))"
        using k ig by (simp add: step_kept)
      have "fst (foldl (stabilize_step h) (X @ [y] @ [], idx(g0 \<mapsto> Suc (length X))) Y')
            = X @ [y] @ Y' @ []"
        using insertion_run [of Y' h g0 "idx(g0 \<mapsto> Suc (length X))" X "[y]" "[]"] ky' by simp
      with st Cons show ?thesis by simp
    qed
    with False p1 show ?thesis by (simp add: stabilize_def)
  qed
qed

lemma stabilize_filter_kept: "stabilize h xs = stabilize h (filter (kept h) xs)"
  unfolding stabilize_def by (subst fold_filter_kept) simp

lemma assigning_mono: "assigning gn b st \<Longrightarrow> b \<le> b' \<Longrightarrow> assigning gn b' st"
  by (cases st) (auto simp: assigning_def)

lemma gk_strip: "fgroup f = Some (strip g) \<Longrightarrow> gk (h(a := f)) a = gname g"
  by (simp add: gk_def group_name_def strip_def)

lemma gk_other: "a \<noteq> f \<Longrightarrow> gk (h(f := x)) a = gk h a"
  by (simp add: gk_def group_name_def)

lemma assign_field_found:
  assumes inv: "assigning gn b (h, s, ns)"
    and g: "gname g \<in> set gn" "pos gn (gname g) = b"
    and f: "f \<in> set (ns @ s)" "name (h f) = fname"
    and rs: "set s' = set s - {f}" "distinct s'"
    and rn: "set nsr \<subseteq> set ns - {f}" "distinct (map (\<lambda>a. name (h a)) nsr)"
            "sorted (map (\<lambda>a. pos gn (gk h a)) nsr)" "\<forall>a\<in>set nsr. name (h a) \<noteq> fname"
  shows "assigning gn b (h(f := (h f)\<lparr>fgroup := Some (strip g)\<rparr>), s', nsr @ [f])"
proof -
  let ?h = "h(f := (h f)\<lparr>fgroup := Some (strip g)\<rparr>)"
  from inv have d: "distinct (ns @ s)"
    and el: "\<forall>a\<in>set ns. fgroup (h a) \<noteq> None \<and> gk h a \<in> set gn \<and> pos gn (gk h a) \<le> b"
    by (simp_all add: assigning_def)
  have fn: "f \<notin> set nsr" using rn(1) by auto
  have nm: "name (?h a) = name (h a)" for a by simp
  have gkf: "gk ?h f = gname g" by (simp add: gk_def group_name_def strip_def)
  have gko: "gk ?h a = gk h a" if "a \<in> set nsr" for a
    using that fn by (auto simp: gk_def group_name_def)
  have map_eq: "map (\<lambda>a. pos gn (gk ?h a)) nsr = map (\<lambda>a. pos gn (gk h a)) nsr"
    by (rule map_cong) (simp_all add: gko)
  have 1: "distinct ((nsr @ [f]) @ s')"
  proof -
    have "distinct nsr" using rn(2) by (simp add: distinct_map)
    moreover have "set nsr \<inter> set s' = {}" using rn(1) rs(1) d by auto
    moreover have "f \<notin> set s'" using rs(1) by simp
    ultimately show ?thesis using fn rs(2) by auto
  qed
  have nmf: "(\<lambda>a. name (?h a)) = (\<lambda>a. name (h a))" by (auto simp: fun_eq_iff)
  have "distinct (map (\<lambda>a. name (h a)) (nsr @ [f]))"
    using rn(2,4) f(2) by auto
  then have 2: "distinct (map (\<lambda>a. name (?h a)) (nsr @ [f]))"
    by (simp only: nmf)
  have 3: "sorted (map (\<lambda>a. pos gn (gk ?h a)) (nsr @ [f]))"
  proof -
    have "\<forall>a\<in>set nsr. pos gn (gk h a) \<le> b" using rn(1) el by auto
    then show ?thesis using rn(3) g(2) by (simp add: sorted_append map_eq gkf)
  qed
  have 4: "\<forall>a\<in>set (nsr @ [f]). fgroup (?h a) \<noteq> None \<and> gk ?h a \<in> set gn \<and> pos gn (gk ?h a) \<le> b"
  proof
    fix a assume "a \<in> set (nsr @ [f])"
    then consider "a = f" | "a \<in> set nsr" by auto
    then show "fgroup (?h a) \<noteq> None \<and> gk ?h a \<in> set gn \<and> pos gn (gk ?h a) \<le> b"
    proof cases
      case 1
      then show ?thesis using g gkf by simp
    next
      case 2
      with fn have "a \<noteq> f" by auto
      with 2 rn(1) el gko [OF 2] show ?thesis by auto
    qed
  qed
  from 1 2 3 4 show ?thesis by (simp add: assigning_def)
qed

lemma assign_field_assigning:
  assumes inv: "assigning gn b st" and g: "gname g \<in> set gn" "pos gn (gname g) = b"
  shows "assigning gn b (assign_field g st fname)"
proof -
  obtain h s ns where st: "st = (h, s, ns)" by (cases st)
  from inv st have d: "distinct (ns @ s)" and dn: "distinct (map (\<lambda>a. name (h a)) ns)"
    and so: "sorted (map (\<lambda>a. pos gn (gk h a)) ns)"
    by (simp_all add: assigning_def)
  let ?P = "\<lambda>a. name (h a) = fname"
  have upd: "(\<lambda>a. (a = f \<longrightarrow> name (h f) = fname) \<and> (a \<noteq> f \<longrightarrow> name (h a) = fname)) = ?P" for f
    by (auto simp: fun_eq_iff)
  have nsr: "distinct (map (\<lambda>a. name (h a)) (remove_first ?P ns))"
            "sorted (map (\<lambda>a. pos gn (gk h a)) (remove_first ?P ns))"
            "\<forall>a\<in>set (remove_first ?P ns). name (h a) \<noteq> fname"
    using dn so remove_first_no_match [of "\<lambda>a. name (h a)" ns _ fname]
    by (auto simp: distinct_map_remove_first sorted_map_remove_first)
  show ?thesis
  proof (cases "find ?P s")
    case (Some f)
    from find_Some_mem [OF Some] have f: "f \<in> set s" "name (h f) = fname" by simp_all
    with d have fns: "f \<notin> set ns" by auto
    have rs: "set (remove_first ?P s) = set s - {f}" "distinct (remove_first ?P s)"
      using find_Some_remove_first [OF Some] d by (simp_all add: distinct_remove_first)
    have rn: "set (remove_first ?P ns) \<subseteq> set ns - {f}"
      using set_remove_first [of ?P ns] fns by auto
    have "assigning gn b (h(f := (h f)\<lparr>fgroup := Some (strip g)\<rparr>),
            remove_first ?P s, remove_first ?P ns @ [f])"
      by (rule assign_field_found [OF inv [unfolded st] g _ f(2) rs rn nsr]) (use f in simp)
    with Some st show ?thesis by (simp add: assign_field_def upd Let_def)
  next
    case None
    show ?thesis
    proof (cases "find ?P ns")
      case n: None
      with None st inv show ?thesis by (simp add: assign_field_def)
    next
      case (Some f)
      from find_Some_mem [OF Some] have f: "f \<in> set ns" "name (h f) = fname" by simp_all
      have rs: "set (remove_first ?P s) = set s - {f}" "distinct (remove_first ?P s)"
        using find_None_remove_first [OF None] d f by auto
      have rn: "set (remove_first ?P ns) \<subseteq> set ns - {f}"
        using find_Some_remove_first [OF Some] d by simp
      have "assigning gn b (h(f := (h f)\<lparr>fgroup := Some (strip g)\<rparr>),
              remove_first ?P s, remove_first ?P ns @ [f])"
        by (rule assign_field_found [OF inv [unfolded st] g _ f(2) rs rn nsr]) (use f in simp)
      with None Some st show ?thesis by (simp add: assign_field_def upd Let_def)
    qed
  qed
qed

lemma assign_group_assigning:
  assumes "assigning gn b st" and "gname g \<in> set gn" and "pos gn (gname g) = b"
  shows "assigning gn b (assign_group st g)"
proof -
  have "assigning gn b (foldl (assign_field g) st fs)" for fs
    using assms(1)
  proof (induction fs arbitrary: st)
    case Nil
    then show ?case by simp
  next
    case (Cons x fs)
    from assign_field_assigning [OF Cons.prems assms(2,3)] Cons.IH show ?case by simp
  qed
  then show ?thesis by (simp add: assign_group_def)
qed

lemma assign_groups_assigning:
  assumes "distinct (map gname (pre @ todo))"
    and "assigning (map gname (pre @ todo)) (length pre) st"
  shows "assigning (map gname (pre @ todo)) (length pre + length todo)
           (foldl assign_group st todo)"
  using assms
proof (induction todo arbitrary: pre st)
  case Nil
  then show ?case by simp
next
  case (Cons g todo)
  let ?gn = "map gname (pre @ g # todo)"
  have mem: "gname g \<in> set ?gn" by simp
  have p: "pos ?gn (gname g) = length pre"
    using Cons.prems(1) pos_append_new [of "gname g" "map gname pre" "map gname todo"] by simp
  from assign_group_assigning [OF Cons.prems(2) mem p]
  have "assigning ?gn (length pre) (assign_group st g)" .
  then have 1: "assigning (map gname ((pre @ [g]) @ todo)) (length (pre @ [g])) (assign_group st g)"
    by (simp add: assigning_mono)
  have 2: "distinct (map gname ((pre @ [g]) @ todo))" using Cons.prems(1) by simp
  from Cons.IH [OF 2 1] show ?case by simp
qed

lemma group_only_refl: "group_only S h h"
  unfolding group_only_def
proof (intro allI conjI impI)
  fix a show "\<exists>x. h a = (h a)\<lparr>fgroup := x\<rparr>" by (rule exI [of _ "fgroup (h a)"]) simp
qed simp

lemma group_only_trans:
  assumes "group_only S h h'" and "group_only S' h' h''" and "S' \<subseteq> S"
  shows "group_only S h h''"
  unfolding group_only_def
proof (intro allI conjI impI)
  fix a assume "a \<notin> S"
  with assms show "h'' a = h a" by (auto simp: group_only_def)
next
  fix a
  from assms(1) obtain x where 1: "h' a = (h a)\<lparr>fgroup := x\<rparr>" by (auto simp: group_only_def)
  from assms(2) obtain y where 2: "h'' a = (h' a)\<lparr>fgroup := y\<rparr>" by (auto simp: group_only_def)
  from 1 2 have "h'' a = (h a)\<lparr>fgroup := y\<rparr>" by simp
  then show "\<exists>x. h'' a = (h a)\<lparr>fgroup := x\<rparr>" ..
qed

lemma group_only_update: "f \<in> S \<Longrightarrow> group_only S h (h(f := (h f)\<lparr>fgroup := x\<rparr>))"
  unfolding group_only_def
proof (intro allI conjI impI)
  fix a assume "f \<in> S" "a \<notin> S"
  then show "(h(f := (h f)\<lparr>fgroup := x\<rparr>)) a = h a" by auto
next
  fix a
  show "\<exists>y. (h(f := (h f)\<lparr>fgroup := x\<rparr>)) a = (h a)\<lparr>fgroup := y\<rparr>"
  proof (cases "a = f")
    case True
    then show ?thesis by auto
  next
    case False
    then have "(h(f := (h f)\<lparr>fgroup := x\<rparr>)) a = (h a)\<lparr>fgroup := fgroup (h a)\<rparr>" by simp
    then show ?thesis ..
  qed
qed

lemma name_upd: "name ((h(f := (h f)\<lparr>fgroup := x\<rparr>)) a) = name (h a)"
  by simp

lemma assign_field_result:
  "assign_field g (h, s, ns) fname =
     (case (case find (\<lambda>a. name (h a) = fname) s of
              Some f \<Rightarrow> Some f
            | None \<Rightarrow> find (\<lambda>a. name (h a) = fname) ns) of
        None \<Rightarrow> (h, s, ns)
      | Some f \<Rightarrow>
          (h(f := (h f)\<lparr>fgroup := Some (strip g)\<rparr>),
           remove_first (\<lambda>a. name (h a) = fname) s,
           remove_first (\<lambda>a. name (h a) = fname) ns @ [f]))"
  by (simp add: assign_field_def Let_def name_upd del: fun_upd_apply split: option.splits)

lemma assign_field_frame:
  assumes "assign_field g (h, s, ns) fname = (h', s', ns')"
  shows "set (ns' @ s') \<subseteq> set (ns @ s) \<and> group_only (set (ns @ s)) h h'"
proof -
  let ?P = "\<lambda>a. name (h a) = fname"
  let ?f = "case find ?P s of Some f \<Rightarrow> Some f | None \<Rightarrow> find ?P ns"
  show ?thesis
  proof (cases ?f)
    case None
    with assms show ?thesis by (simp add: assign_field_result group_only_refl)
  next
    case (Some f)
    then have "find ?P s = Some f \<or> find ?P ns = Some f" by (auto split: option.splits)
    with find_Some_mem [of ?P s f] find_Some_mem [of ?P ns f]
    have f: "f \<in> set (ns @ s)" by auto
    from Some assms have e: "h' = h(f := (h f)\<lparr>fgroup := Some (strip g)\<rparr>)"
      "s' = remove_first ?P s" "ns' = remove_first ?P ns @ [f]"
      by (simp_all add: assign_field_result)
    have "set (ns' @ s') \<subseteq> set (ns @ s)"
      using f set_remove_first [of ?P s] set_remove_first [of ?P ns] by (auto simp: e)
    moreover have "group_only (set (ns @ s)) h h'"
      unfolding e by (rule group_only_update [OF f])
    ultimately show ?thesis by simp
  qed
qed

lemma assign_fields_frame:
  assumes "foldl (assign_field g) (h, s, ns) fs = (h', s', ns')"
  shows "set (ns' @ s') \<subseteq> set (ns @ s) \<and> group_only (set (ns @ s)) h h'"
  using assms
proof (induction fs arbitrary: h s ns)
  case Nil
  then show ?case by (simp add: group_only_refl)
next
  case (Cons x fs)
  obtain h1 s1 ns1 where 1: "assign_field g (h, s, ns) x = (h1, s1, ns1)"
    by (cases "assign_field g (h, s, ns) x") auto
  from assign_field_frame [OF 1]
  have a: "set (ns1 @ s1) \<subseteq> set (ns @ s)" "group_only (set (ns @ s)) h h1" by simp_all
  from Cons.prems 1 have "foldl (assign_field g) (h1, s1, ns1) fs = (h', s', ns')" by simp
  from Cons.IH [OF this]
  have b: "set (ns' @ s') \<subseteq> set (ns1 @ s1)" "group_only (set (ns1 @ s1)) h1 h'" by simp_all
  from a b group_only_trans [OF a(2) b(2) a(1)] show ?case by blast
qed

lemma assign_groups_frame:
  assumes "foldl assign_group (h, s, ns) gs = (h', s', ns')"
  shows "set (ns' @ s') \<subseteq> set (ns @ s) \<and> group_only (set (ns @ s)) h h'"
  using assms
proof (induction gs arbitrary: h s ns)
  case Nil
  then show ?case by (simp add: group_only_refl)
next
  case (Cons g gs)
  obtain h1 s1 ns1 where 1: "assign_group (h, s, ns) g = (h1, s1, ns1)"
    by (cases "assign_group (h, s, ns) g") auto
  from assign_fields_frame [of g h s ns "gfields g" h1 s1 ns1] 1
  have a: "set (ns1 @ s1) \<subseteq> set (ns @ s)" "group_only (set (ns @ s)) h h1"
    by (simp_all add: assign_group_def)
  from Cons.prems 1 have "foldl assign_group (h1, s1, ns1) gs = (h', s', ns')" by simp
  from Cons.IH [OF this]
  have b: "set (ns' @ s') \<subseteq> set (ns1 @ s1)" "group_only (set (ns1 @ s1)) h1 h'" by simp_all
  from a b group_only_trans [OF a(2) b(2) a(1)] show ?case by blast
qed

lemma assign_leftover_at:
  "assign_leftover d h s a = (if a \<in> set s then (h a)\<lparr>fgroup := Some d\<rparr> else h a)"
proof -
  define F where "F = (\<lambda>(h :: heap) a. h(a := (h a)\<lparr>fgroup := Some d\<rparr>))"
  have step: "F h x a = (if a = x then (h x)\<lparr>fgroup := Some d\<rparr> else h a)" for h x a
    by (simp add: F_def)
  have "foldl F h s a = (if a \<in> set s then (h a)\<lparr>fgroup := Some d\<rparr> else h a)" for a
  proof (induction s arbitrary: a rule: rev_induct)
    case Nil
    then show ?case by simp
  next
    case (snoc x s)
    have "foldl F h (s @ [x]) a = F (foldl F h s) x a"
      by simp
    also have "\<dots> = (if a = x then (foldl F h s x)\<lparr>fgroup := Some d\<rparr> else foldl F h s a)"
      by (rule step)
    also have "\<dots> = (if a \<in> set (s @ [x]) then (h a)\<lparr>fgroup := Some d\<rparr> else h a)"
      by (simp add: snoc.IH)
    finally show ?case .
  qed
  then show ?thesis
    by (simp add: assign_leftover_def F_def)
qed

lemma set_splice_in: "set (splice_in i x xs) = insert x (set xs)"
proof -
  have "set (take i xs) \<union> set (drop i xs) = set xs"
    by (metis append_take_drop_id set_append)
  then show ?thesis by (auto simp: splice_in_def)
qed

lemma distinct_map_splice_in:
  assumes "distinct (map f xs)" and "f x \<notin> f ` set xs"
  shows "distinct (map f (splice_in i x xs))"
proof -
  have d: "distinct (map f (take i xs) @ map f (drop i xs))"
    using assms(1) by (metis append_take_drop_id map_append)
  have s: "set (take i xs) \<subseteq> set xs" "set (drop i xs) \<subseteq> set xs"
    by (simp_all add: set_take_subset set_drop_subset)
  from d s assms(2) show ?thesis by (auto simp: splice_in_def)
qed

lemma remove_first_key_gone:
  assumes "distinct (map f xs)"
  shows "v \<notin> f ` set (remove_first (\<lambda>y. f y = v) xs)"
  using assms by (induction xs) auto

lemma regroup_distinct:
  assumes "distinct (map gname acc)"
  shows "distinct (map gname (regroup n acc g))"
  unfolding regroup_def Let_def
  by (rule distinct_map_splice_in)
     (simp_all add: assms distinct_map_remove_first remove_first_key_gone)

lemma regroup_nonempty: "regroup n acc g \<noteq> []"
  by (simp add: regroup_def Let_def splice_in_def)

lemma dedupe_groups_distinct: "distinct (map gname (dedupe_groups gs))"
proof -
  have "distinct (map gname (foldl (regroup n) acc xs))" if "distinct (map gname acc)" for n acc xs
    using that by (induction xs arbitrary: acc) (simp_all add: regroup_distinct)
  then show ?thesis by (simp add: dedupe_groups_def)
qed

lemma dedupe_groups_nonempty: "gs \<noteq> [] \<Longrightarrow> dedupe_groups gs \<noteq> []"
proof (induction gs rule: rev_induct)
  case Nil
  then show ?case by simp
next
  case (snoc g gs)
  have "foldl (regroup n) [] (gs @ [g]) \<noteq> []" for n
    by (simp add: regroup_nonempty)
  then show ?case by (simp add: dedupe_groups_def)
qed

lemma initial_groups_nonempty: "initial_groups d arr \<noteq> []"
  by (simp add: initial_groups_def split: option.splits arrange.splits)

lemma pos_map_hd: "xs \<noteq> [] \<Longrightarrow> pos (map f xs) (f (hd xs)) = 0"
  by (cases xs) simp_all

lemma add_field_names:
  assumes "distinct (map (\<lambda>a. name (h a)) acc)"
  shows "distinct (map (\<lambda>a. name (h a)) (add_field h acc fld))"
proof -
  let ?P = "\<lambda>a. name (h a) = name (h fld)"
  have "name (h fld) \<notin> (\<lambda>a. name (h a)) ` set (remove_first ?P acc)"
    by (rule remove_first_key_gone [OF assms])
  moreover have "distinct (map (\<lambda>a. name (h a)) (remove_first ?P acc))"
    by (rule distinct_map_remove_first [OF assms])
  ultimately show ?thesis by (simp add: add_field_def)
qed

lemma add_field_set: "set (add_field h acc fld) \<subseteq> insert fld (set acc)"
  using set_remove_first [of "\<lambda>a. name (h a) = name (h fld)" acc]
  by (auto simp: add_field_def)

lemma apply_addFields_names: "distinct (map (\<lambda>a. name (h a)) (apply_addFields h adds))"
proof -
  have "distinct (map (\<lambda>a. name (h a)) (foldl (add_field h) acc fs))"
    if "distinct (map (\<lambda>a. name (h a)) acc)" for acc fs
    using that by (induction fs arbitrary: acc) (simp_all add: add_field_names)
  then show ?thesis by (simp add: apply_addFields_def split: option.splits)
qed

lemma apply_addFields_set:
  "set (apply_addFields h adds) \<subseteq> (case adds of None \<Rightarrow> {} | Some fs \<Rightarrow> set fs)"
proof -
  have "set (foldl (add_field h) acc fs) \<subseteq> set acc \<union> set fs" for acc fs
  proof (induction fs arbitrary: acc)
    case Nil
    then show ?case by simp
  next
    case (Cons f fs)
    from Cons.IH [of "add_field h acc f"] add_field_set [of h acc f]
    show ?case by auto
  qed
  from this [of "[]"] show ?thesis by (simp add: apply_addFields_def split: option.splits)
qed

lemma apply_removeFields_names:
  "distinct (map (\<lambda>a. name (h a)) s) \<Longrightarrow>
   distinct (map (\<lambda>a. name (h a)) (apply_removeFields h rm s))"
  by (simp add: apply_removeFields_def distinct_map_filter split: option.splits)

lemma apply_removeFields_set: "set (apply_removeFields h rm s) \<subseteq> set s"
  by (auto simp: apply_removeFields_def split: option.splits)

text \<open>What \<open>requireFields\<close> does to the store, for a field list with unique names.\<close>

lemma apply_requireFields_at:
  assumes d: "distinct (map (\<lambda>a. name (h a)) s)"
  shows "apply_requireFields rq s h a =
           (if a \<in> set s \<and> name (h a) \<in> (case rq of None \<Rightarrow> {} | Some ns \<Rightarrow> set ns)
            then (h a)\<lparr>required := True\<rparr> else h a)"
proof -
  have "foldl (require_field s) h ns b =
          (if b \<in> set s \<and> name (h b) \<in> set ns then (h b)\<lparr>required := True\<rparr> else h b)"
    for ns b
  proof (induction ns arbitrary: b rule: rev_induct)
    case Nil
    then show ?case by simp
  next
    case (snoc n ns)
    define h1 where "h1 = foldl (require_field s) h ns"
    have h1: "h1 b = (if b \<in> set s \<and> name (h b) \<in> set ns then (h b)\<lparr>required := True\<rparr> else h b)"
      for b unfolding h1_def by (rule snoc.IH)
    have nm: "name (h1 b) = name (h b)" for b by (simp add: h1)
    then have P: "(\<lambda>a. name (h1 a) = n) = (\<lambda>a. name (h a) = n)" by simp
    have step: "foldl (require_field s) h (ns @ [n]) = require_field s h1 n"
      by (simp add: h1_def)
    have rf: "require_field s h1 n b =
                (case find (\<lambda>a. name (h a) = n) s of
                   None \<Rightarrow> h1 b
                 | Some f \<Rightarrow> if b = f then (h1 f)\<lparr>required := True\<rparr> else h1 b)"
      by (simp add: require_field_def P split: option.splits)
    have "require_field s h1 n b =
            (if b \<in> set s \<and> name (h b) \<in> set (ns @ [n])
             then (h b)\<lparr>required := True\<rparr> else h b)"
    proof (cases "find (\<lambda>a. name (h a) = n) s")
      case None
      then have no: "\<forall>a\<in>set s. name (h a) \<noteq> n" by (simp add: find_None_iff)
      from None have "require_field s h1 n b = h1 b" by (simp add: rf)
      also have "\<dots> = (if b \<in> set s \<and> name (h b) \<in> set (ns @ [n])
             then (h b)\<lparr>required := True\<rparr> else h b)"
        using no by (auto simp: h1)
      finally show ?thesis .
    next
      case (Some f)
      from find_Some_mem [OF Some] have f: "f \<in> set s" "name (h f) = n" by simp_all
      have uniq: "b \<in> set s \<and> name (h b) = n \<longleftrightarrow> b = f"
      proof
        assume b: "b \<in> set s \<and> name (h b) = n"
        from d have "inj_on (\<lambda>a. name (h a)) (set s)" by (simp add: distinct_map)
        with b f show "b = f" by (auto dest: inj_onD)
      next
        assume "b = f" with f show "b \<in> set s \<and> name (h b) = n" by simp
      qed
      from Some have e: "require_field s h1 n b = (if b = f then (h1 f)\<lparr>required := True\<rparr> else h1 b)"
        by (simp add: rf)
      show ?thesis
      proof (cases "b = f")
        case True
        with f show ?thesis unfolding e by (simp add: h1)
      next
        case False
        with uniq have "\<not> (b \<in> set s \<and> name (h b) = n)" by simp
        with False show ?thesis unfolding e by (auto simp: h1)
      qed
    qed
    then show ?case by (simp only: step)
  qed
  then show ?thesis by (simp add: apply_requireFields_def split: option.splits)
qed

lemma working_fields_plain:
  assumes "alterFields opts = None" and "working_fields opts h = (h', s)"
  shows "distinct (map (\<lambda>a. name (h a)) s)"
    and "set s \<subseteq> (case addFields opts of None \<Rightarrow> {} | Some fs \<Rightarrow> set fs)"
    and "h' a = (if a \<in> set s \<and>
                     name (h a) \<in> (case requireFields opts of None \<Rightarrow> {} | Some ns \<Rightarrow> set ns)
                  then (h a)\<lparr>required := True\<rparr> else h a)"
proof -
  let ?s = "apply_removeFields h (removeFields opts) (apply_addFields h (addFields opts))"
  from assms have s: "s = ?s" and h': "h' = apply_requireFields (requireFields opts) ?s h"
    by (auto simp: working_fields_def Let_def apply_alterFields_def)
  show d: "distinct (map (\<lambda>a. name (h a)) s)"
    unfolding s by (rule apply_removeFields_names [OF apply_addFields_names])
  show "set s \<subseteq> (case addFields opts of None \<Rightarrow> {} | Some fs \<Rightarrow> set fs)"
    unfolding s using apply_removeFields_set apply_addFields_set by blast
  show "h' a = (if a \<in> set s \<and>
                     name (h a) \<in> (case requireFields opts of None \<Rightarrow> {} | Some ns \<Rightarrow> set ns)
                  then (h a)\<lparr>required := True\<rparr> else h a)"
    using apply_requireFields_at [OF d [unfolded s]] by (simp add: h' s)
qed

lemma distinct_names_distinct: "distinct (map f xs) \<Longrightarrow> distinct xs"
  by (simp add: distinct_map)



lemma kept_iff: "kept h a \<longleftrightarrow> fgroup (h a) \<noteq> None \<and> gk h a \<noteq> []"
  by (auto simp: kept_def gk_def group_name_def split: option.splits)

text \<open>
  The field list after group assignment, when no field object is listed twice: the
  fields placed by the groups come first, in the order of their groups, and the fields
  left over follow, all in the first group.
\<close>

lemma grouped_fields_summary:
  assumes d: "distinct s" and ne: "groups \<noteq> []" and dg: "distinct (map gname groups)"
    and r: "grouped_fields groups h s = (h', sb)"
  shows "\<exists>X Y. sb = X @ Y \<and> distinct (X @ Y) \<and> set (X @ Y) \<subseteq> set s \<and>
           sorted (map (\<lambda>a. pos (map gname groups) (gk h' a)) X) \<and>
           (\<forall>a\<in>set X. fgroup (h' a) \<noteq> None \<and> gk h' a \<in> set (map gname groups)) \<and>
           (\<forall>y\<in>set Y. fgroup (h' y) = Some (strip (hd groups))) \<and>
           group_only (set s) h h'"
proof -
  let ?gn = "map gname groups"
  obtain h1 Y X where f: "foldl assign_group (h, s, []) groups = (h1, Y, X)"
    by (cases "foldl assign_group (h, s, []) groups") auto
  from r f have h': "h' = assign_leftover (strip (hd groups)) h1 Y" and sb: "sb = X @ Y"
    by (simp_all add: grouped_fields_def)
  have "assigning (map gname ([] @ groups)) (length ([] :: group list)) (h, s, [])"
    using d by (simp add: assigning_def)
  from assign_groups_assigning [of "[]" groups, OF _ this] dg
  have "assigning ?gn (length groups) (foldl assign_group (h, s, []) groups)" by simp
  with f have inv: "distinct (X @ Y)" "sorted (map (\<lambda>a. pos ?gn (gk h1 a)) X)"
    "\<forall>a\<in>set X. fgroup (h1 a) \<noteq> None \<and> gk h1 a \<in> set ?gn"
    by (simp_all add: assigning_def)
  from assign_groups_frame [OF f]
  have fr: "set (X @ Y) \<subseteq> set s" "group_only (set s) h h1" by simp_all
  have same: "h' a = h1 a" if "a \<in> set X" for a
    using that inv(1) by (auto simp: h' assign_leftover_at)
  then have gk: "gk h' a = gk h1 a" if "a \<in> set X" for a
    using that by (simp add: gk_def group_name_def)
  have 1: "sorted (map (\<lambda>a. pos ?gn (gk h' a)) X)"
  proof -
    have "map (\<lambda>a. pos ?gn (gk h' a)) X = map (\<lambda>a. pos ?gn (gk h1 a)) X"
      by (rule map_cong) (simp_all add: gk)
    with inv(2) show ?thesis by (simp only:)
  qed
  have 2: "\<forall>a\<in>set X. fgroup (h' a) \<noteq> None \<and> gk h' a \<in> set ?gn"
    using inv(3) same gk by simp
  have 3: "\<forall>y\<in>set Y. fgroup (h' y) = Some (strip (hd groups))"
    by (simp add: h' assign_leftover_at)
  have "group_only (set s) h1 h'"
    unfolding group_only_def
  proof (intro allI conjI impI)
    fix a assume "a \<notin> set s"
    with fr(1) have "a \<notin> set Y" by auto
    then show "h' a = h1 a" by (simp add: h' assign_leftover_at)
  next
    fix a
    show "\<exists>x. h' a = (h1 a)\<lparr>fgroup := x\<rparr>"
    proof (cases "a \<in> set Y")
      case True
      then have "h' a = (h1 a)\<lparr>fgroup := Some (strip (hd groups))\<rparr>"
        by (simp add: h' assign_leftover_at)
      then show ?thesis ..
    next
      case False
      then have "h' a = (h1 a)\<lparr>fgroup := fgroup (h1 a)\<rparr>" by (simp add: h' assign_leftover_at)
      then show ?thesis ..
    qed
  qed
  from group_only_trans [OF fr(2) this] have 4: "group_only (set s) h h'" by simp
  from sb inv(1) fr(1) 1 2 3 4 show ?thesis by blast
qed

lemma sorted_const:
  fixes xs :: "nat list"
  shows "\<forall>x\<in>set xs. x = c \<Longrightarrow> sorted xs"
  by (induction xs) auto

text \<open>
  Moving the elements of one key to the end of a list sorted by rank leaves a list sorted
  by the rank that puts this key last.
\<close>

lemma move_last:
  fixes r :: "'k \<Rightarrow> nat"
  assumes s: "sorted (map (\<lambda>a. r (k a)) xs)" and b: "\<forall>a\<in>set xs. r (k a) \<le> B"
    and y: "\<forall>y\<in>set ys. k y = d"
  shows "sorted (map (\<lambda>a. if k a = d then Suc B else r (k a))
           (filter (\<lambda>a. k a \<noteq> d) xs @ filter (\<lambda>a. k a = d) xs @ ys))"
proof -
  let ?r = "\<lambda>a. if k a = d then Suc B else r (k a)"
  have 1: "map ?r (filter (\<lambda>a. k a \<noteq> d) xs) = map (\<lambda>a. r (k a)) (filter (\<lambda>a. k a \<noteq> d) xs)"
    by (rule map_cong) simp_all
  have s1: "sorted (map ?r (filter (\<lambda>a. k a \<noteq> d) xs))"
    unfolding 1 by (rule sorted_filter [OF s])
  have s2: "sorted (map ?r (filter (\<lambda>a. k a = d) xs @ ys))"
    by (rule sorted_const [of _ "Suc B"]) (use y in auto)
  have c: "\<forall>x\<in>set (map ?r (filter (\<lambda>a. k a \<noteq> d) xs)).
             \<forall>z\<in>set (map ?r (filter (\<lambda>a. k a = d) xs @ ys)). x \<le> z"
    using b y by auto
  have "sorted (map ?r (filter (\<lambda>a. k a \<noteq> d) xs) @ map ?r (filter (\<lambda>a. k a = d) xs @ ys))"
    using s1 s2 c by (simp only: sorted_append)
  then show ?thesis by simp
qed

lemma inj_on_move_last:
  fixes r :: "'k \<Rightarrow> nat"
  assumes "inj_on r K" and "\<forall>n\<in>K. r n \<le> B"
  shows "inj_on (\<lambda>n. if n = d then Suc B else r n) K"
  unfolding inj_on_def
proof (intro ballI impI)
  fix x y assume xy: "x \<in> K" "y \<in> K"
    and e: "(if x = d then Suc B else r x) = (if y = d then Suc B else r y)"
  from assms(2) xy have "r x \<le> B" "r y \<le> B" by simp_all
  with e have "(x = d \<and> y = d) \<or> (x \<noteq> d \<and> y \<noteq> d \<and> r x = r y)"
    by (auto split: if_splits)
  with assms(1) xy show "x = y" by (auto simp: inj_on_def)
qed

lemma filter_key_filter:
  "filter (\<lambda>a. k a = n) (filter (\<lambda>a. k a \<noteq> d) xs @ filter (\<lambda>a. k a = d) xs) =
   filter (\<lambda>a. k a = n) xs"
proof (cases "n = d")
  case True
  have "filter (\<lambda>a. k a \<noteq> d \<and> k a = d) xs = []" by (simp add: filter_empty_conv)
  with True show ?thesis by simp
next
  case False
  have "filter (\<lambda>a. k a = d \<and> k a = n) xs = []"
    using False by (simp add: filter_empty_conv)
  moreover have "filter (\<lambda>a. k a \<noteq> d \<and> k a = n) xs = filter (\<lambda>a. k a = n) xs"
    by (rule filter_cong) (use False in auto)
  ultimately show ?thesis by simp
qed

lemma filter_key_front:
  assumes "\<forall>y\<in>set ys. k y = d"
  shows "filter (\<lambda>a. k a = n) (filter (\<lambda>a. k a = d) xs @ ys @ filter (\<lambda>a. k a \<noteq> d) xs) =
         filter (\<lambda>a. k a = n) (xs @ ys)"
proof (cases "n = d")
  case True
  have "filter (\<lambda>a. k a \<noteq> d \<and> k a = d) xs = []" by (simp add: filter_empty_conv)
  with True show ?thesis by simp
next
  case False
  have "filter (\<lambda>a. k a = d \<and> k a = n) xs = []"
    using False by (simp add: filter_empty_conv)
  moreover have "filter (\<lambda>a. k a \<noteq> d \<and> k a = n) xs = filter (\<lambda>a. k a = n) xs"
    by (rule filter_cong) (use False in auto)
  moreover have "filter (\<lambda>a. k a = n) ys = []"
    using False assms by (simp add: filter_empty_conv)
  ultimately show ?thesis by simp
qed

lemma kept_gk_iff: "(group_name h a = Some n \<and> n \<noteq> []) \<longleftrightarrow> (kept h a \<and> gk h a = n)"
  by (auto simp: kept_def gk_def split: option.splits)

lemma filter_kept_key:
  "n \<noteq> [] \<Longrightarrow> filter (\<lambda>a. gk h a = n) (filter (kept h) xs) = filter (\<lambda>a. gk h a = n) xs"
proof -
  assume n: "n \<noteq> []"
  have "filter (\<lambda>a. kept h a \<and> gk h a = n) xs = filter (\<lambda>a. gk h a = n) xs"
  proof (rule filter_cong)
    fix a assume "a \<in> set xs"
    show "(kept h a \<and> gk h a = n) = (gk h a = n)"
      using n by (auto simp: kept_def gk_def split: option.splits)
  qed simp
  then show ?thesis by simp
qed

text \<open>
  The ordering pass on a field list made of fields sorted by the position of their group,
  followed by fields of the first group.
\<close>

lemma stabilize_ranked:
  assumes sx: "sorted (map (\<lambda>a. pos gn (gk h a)) X)"
    and ex: "\<forall>a\<in>set X. gk h a \<in> set gn"
    and ey: "\<forall>y\<in>set Y. gk h y = g0"
    and g0: "g0 \<in> set gn" "pos gn g0 = 0"
  shows "\<exists>r. sorted (map (\<lambda>a. r (gk h a)) (stabilize h (X @ Y))) \<and> inj_on r (set gn) \<and>
             (\<forall>n\<in>set gn. r n \<le> Suc (length gn))"
    and "set (stabilize h (X @ Y)) = set (filter (kept h) (X @ Y))"
    and "filter (\<lambda>a. gk h a = n) (stabilize h (X @ Y)) =
         filter (\<lambda>a. gk h a = n) (filter (kept h) (X @ Y))"
    and "distinct (X @ Y) \<Longrightarrow> distinct (stabilize h (X @ Y))"
proof -
  let ?k = "gk h"
  define X' where "X' = filter (kept h) X"
  define Y' where "Y' = filter (kept h) Y"
  let ?P = "filter (\<lambda>a. ?k a = g0) X'" and ?Q = "filter (\<lambda>a. ?k a \<noteq> g0) X'"
  have kx: "\<forall>a\<in>set X'. kept h a" and ky: "\<forall>y\<in>set Y'. kept h y \<and> ?k y = g0"
    using ey by (simp_all add: X'_def Y'_def)
  have sx': "sorted (map (\<lambda>a. pos gn (?k a)) X')"
    unfolding X'_def by (rule sorted_filter [OF sx])
  have ex': "\<forall>a\<in>set X'. ?k a \<in> set gn" using ex by (simp add: X'_def)
  have inj: "inj_on (pos gn) (set gn)"
    by (auto simp: inj_on_def dest: pos_inj)
  have i: "inj_on (pos gn) (insert g0 (?k ` set X'))"
    by (rule inj_on_subset [OF inj]) (use ex' g0 in auto)
  have m: "\<forall>a\<in>set X'. pos gn g0 \<le> pos gn (?k a)" using g0 by simp
  have S: "stabilize h (X @ Y) =
             (if g0 \<in> ?k ` set X' then ?P @ Y' @ ?Q else X' @ Y')"
    using stabilize_shape [OF kx ky sx' i m] stabilize_filter_kept [of h "X @ Y"]
    by (simp add: X'_def Y'_def)
  have XY: "filter (kept h) (X @ Y) = X' @ Y'" by (simp add: X'_def Y'_def)
  have bound: "\<forall>n\<in>set gn. pos gn n \<le> length gn"
    by (auto dest: pos_less intro: less_imp_le)
  show "\<exists>r. sorted (map (\<lambda>a. r (?k a)) (stabilize h (X @ Y))) \<and> inj_on r (set gn) \<and>
             (\<forall>n\<in>set gn. r n \<le> Suc (length gn))"
  proof (cases "g0 \<in> ?k ` set X'")
    case True
    have 1: "sorted (map (\<lambda>a. pos gn (?k a)) (?P @ Y'))"
      by (rule sorted_const [of _ 0]) (use g0 ky in auto)
    have 2: "sorted (map (\<lambda>a. pos gn (?k a)) ?Q)"
      by (rule sorted_filter [OF sx'])
    have 3: "\<forall>x\<in>set (map (\<lambda>a. pos gn (?k a)) (?P @ Y')). \<forall>z\<in>set (map (\<lambda>a. pos gn (?k a)) ?Q). x \<le> z"
      using g0 ky by auto
    have "sorted (map (\<lambda>a. pos gn (?k a)) (?P @ Y') @ map (\<lambda>a. pos gn (?k a)) ?Q)"
      using 1 2 3 by (simp only: sorted_append)
    then have "sorted (map (\<lambda>a. pos gn (?k a)) (stabilize h (X @ Y)))"
      using True by (simp add: S)
    moreover have "\<forall>n\<in>set gn. pos gn n \<le> Suc (length gn)"
      using bound by auto
    ultimately show ?thesis using inj by blast
  next
    case False
    then have none: "\<forall>a\<in>set X'. ?k a \<noteq> g0" by auto
    then have f: "filter (\<lambda>a. ?k a \<noteq> g0) X' = X'" "filter (\<lambda>a. ?k a = g0) X' = []"
      by (simp_all add: filter_id_conv filter_empty_conv)
    let ?r = "\<lambda>n. if n = g0 then Suc (length gn) else pos gn n"
    have b: "\<forall>a\<in>set X'. pos gn (?k a) \<le> length gn"
      using ex' bound by simp
    have y: "\<forall>y\<in>set Y'. ?k y = g0" using ky by simp
    from move_last [OF sx' b y]
    have "sorted (map (\<lambda>a. ?r (?k a)) (X' @ Y'))" by (simp only: f append_Nil)
    then have "sorted (map (\<lambda>a. ?r (?k a)) (stabilize h (X @ Y)))"
      using False by (simp only: S if_False)
    moreover have "inj_on ?r (set gn)"
      by (rule inj_on_move_last [OF inj bound])
    moreover have "\<forall>n\<in>set gn. ?r n \<le> Suc (length gn)"
      using bound by auto
    ultimately have "sorted (map (\<lambda>a. ?r (?k a)) (stabilize h (X @ Y))) \<and> inj_on ?r (set gn) \<and>
             (\<forall>n\<in>set gn. ?r n \<le> Suc (length gn))" by simp
    then show ?thesis by (rule exI [of _ ?r])
  qed
  show "set (stabilize h (X @ Y)) = set (filter (kept h) (X @ Y))"
    unfolding XY S by auto
  show "filter (\<lambda>a. ?k a = n) (stabilize h (X @ Y)) =
        filter (\<lambda>a. ?k a = n) (filter (kept h) (X @ Y))"
  proof (cases "g0 \<in> ?k ` set X'")
    case True
    have "filter (\<lambda>a. ?k a = n) (?P @ Y' @ ?Q) = filter (\<lambda>a. ?k a = n) (X' @ Y')"
      by (rule filter_key_front) (use ky in simp)
    with True show ?thesis by (simp only: S XY if_True)
  next
    case False
    then show ?thesis by (simp only: S XY if_False)
  qed
  show "distinct (stabilize h (X @ Y))" if "distinct (X @ Y)"
  proof -
    from that have "distinct (X' @ Y')"
      unfolding XY [symmetric] by (rule distinct_filter)
    then show ?thesis unfolding S by auto
  qed
qed

lemma default_last_kept:
  assumes "\<forall>a\<in>set S. kept h a"
  shows "default_last h S =
           filter (\<lambda>a. gk h a \<noteq> ''default'') S @ filter (\<lambda>a. gk h a = ''default'') S"
proof -
  have e: "(group_name h a = Some ''default'') = (gk h a = ''default'')" if "a \<in> set S" for a
    using assms that by (auto simp: kept_def gk_def split: option.splits)
  have "filter (\<lambda>a. group_name h a \<noteq> Some ''default'') S = filter (\<lambda>a. gk h a \<noteq> ''default'') S"
    by (rule filter_cong) (simp_all add: e)
  moreover
  have "filter (\<lambda>a. group_name h a = Some ''default'') S = filter (\<lambda>a. gk h a = ''default'') S"
    by (rule filter_cong) (simp_all add: e)
  ultimately show ?thesis by (simp add: default_last_def)
qed

lemma filter_group_name:
  "n \<noteq> [] \<Longrightarrow>
   filter (\<lambda>a. group_name h a = Some n) xs = filter (\<lambda>a. gk h a = n) (filter (kept h) xs)"
proof -
  assume n: "n \<noteq> []"
  have "filter (\<lambda>a. group_name h a = Some n) xs = filter (\<lambda>a. kept h a \<and> gk h a = n) xs"
    by (rule filter_cong) (use n kept_gk_iff [of h _ n] in auto)
  then show ?thesis by simp
qed

text \<open>
  The two ordering passes on a field list made of fields sorted by the position of their
  group, followed by fields of the first group.
\<close>

lemma ordering_summary:
  assumes sx: "sorted (map (\<lambda>a. pos gn (gk h a)) X)"
    and ex: "\<forall>a\<in>set X. gk h a \<in> set gn"
    and ey: "\<forall>y\<in>set Y. gk h y = g0"
    and g0: "g0 \<in> set gn" "pos gn g0 = 0"
    and R: "R = default_last h (stabilize h (X @ Y))"
  shows "\<forall>a\<in>set R. kept h a \<and> a \<in> set (X @ Y)"
    and "contiguous (map (group_name h) R)"
    and "n \<noteq> [] \<Longrightarrow> filter (\<lambda>a. group_name h a = Some n) R =
                       filter (\<lambda>a. group_name h a = Some n) (X @ Y)"
    and "distinct (X @ Y) \<Longrightarrow> distinct R"
proof -
  define S where "S = stabilize h (X @ Y)"
  note st = stabilize_ranked [OF sx ex ey g0, folded S_def]
  from st(2) have kS: "\<forall>a\<in>set S. kept h a" and sub: "set S \<subseteq> set (X @ Y)" by auto
  have R': "R = filter (\<lambda>a. gk h a \<noteq> ''default'') S @ filter (\<lambda>a. gk h a = ''default'') S"
    unfolding R S_def [symmetric] by (rule default_last_kept [OF kS])
  then have setR: "set R = set S" by auto
  with kS sub show 1: "\<forall>a\<in>set R. kept h a \<and> a \<in> set (X @ Y)" by auto
  have keys: "\<forall>a\<in>set S. gk h a \<in> set gn"
    using sub ex ey g0 by auto
  from st(1) obtain r where r: "sorted (map (\<lambda>a. r (gk h a)) S)" "inj_on r (set gn)"
    "\<forall>n\<in>set gn. r n \<le> Suc (length gn)" by blast
  define r' where "r' = (\<lambda>n. if n = ''default'' then Suc (Suc (length gn)) else r n)"
  define rho where "rho = (\<lambda>x. r' (case x of None \<Rightarrow> [] | Some n \<Rightarrow> n))"
  have b: "\<forall>a\<in>set S. r (gk h a) \<le> Suc (length gn)" using keys r(3) by simp
  have "sorted (map (\<lambda>a. if gk h a = ''default'' then Suc (Suc (length gn)) else r (gk h a))
          (filter (\<lambda>a. gk h a \<noteq> ''default'') S @ filter (\<lambda>a. gk h a = ''default'') S @ []))"
    using move_last [of r "gk h" S "Suc (length gn)" "[]" "''default''"] r(1) b by simp
  then have so: "sorted (map (\<lambda>a. r' (gk h a)) R)" by (simp add: R' r'_def)
  have inj: "inj_on r' (set gn)"
    unfolding r'_def by (rule inj_on_move_last [OF r(2,3)])
  have m: "map rho (map (group_name h) R) = map (\<lambda>a. r' (gk h a)) R"
    by (simp add: rho_def gk_def)
  have "inj_on rho (set (map (group_name h) R))"
    unfolding inj_on_def
  proof (intro ballI impI)
    fix x y assume x: "x \<in> set (map (group_name h) R)" and y: "y \<in> set (map (group_name h) R)"
      and e: "rho x = rho y"
    from x obtain a where a: "a \<in> set R" "x = group_name h a" by auto
    from y obtain c where c: "c \<in> set R" "y = group_name h c" by auto
    from a c 1 have xs: "x = Some (gk h a)" "y = Some (gk h c)"
      by (auto dest: kept_gk)
    from a c setR keys have "gk h a \<in> set gn" "gk h c \<in> set gn" by auto
    with e xs inj show "x = y" by (auto simp: rho_def inj_on_def)
  qed
  moreover from so have "sorted (map rho (map (group_name h) R))" by (simp only: m)
  ultimately show "contiguous (map (group_name h) R)"
    by (rule ranked_contiguous [rotated])
  show "filter (\<lambda>a. group_name h a = Some n) R =
        filter (\<lambda>a. group_name h a = Some n) (X @ Y)" if n: "n \<noteq> []"
  proof -
    have kR: "filter (kept h) R = R" using 1 by (simp add: filter_id_conv)
    have "filter (\<lambda>a. group_name h a = Some n) R = filter (\<lambda>a. gk h a = n) R"
      using filter_group_name [OF n, of h R] by (simp only: kR)
    also have "\<dots> = filter (\<lambda>a. gk h a = n) S"
      unfolding R' by (rule filter_key_filter)
    also have "\<dots> = filter (\<lambda>a. gk h a = n) (filter (kept h) (X @ Y))"
      by (rule st(3))
    also have "\<dots> = filter (\<lambda>a. group_name h a = Some n) (X @ Y)"
      by (rule filter_group_name [OF n, symmetric])
    finally show ?thesis .
  qed
  show "distinct R" if "distinct (X @ Y)"
  proof -
    from st(4) [OF that] have "distinct S" .
    then show ?thesis unfolding R' by auto
  qed
qed






subsection \<open>The field objects of the caller are written in place\<close>

text \<open>
  The field list and the store handed to the last step of \<open>compose\<close>, when there is no
  \<open>alterFields\<close> function: the list holds fields of the working list only, each with a
  group of a truthy name, and the store differs from the one left by \<open>requireFields\<close> only
  in the groups of the fields of the working list.
\<close>

lemma before_ordering_plain:
  assumes "alterFields opts = None" and w: "working_fields opts h = (hw, s)"
    and b: "before_ordering dg opts h = (hb, sb)"
  shows "set (default_last hb (stabilize hb sb)) \<subseteq> set s"
    and "\<forall>a\<in>set (default_last hb (stabilize hb sb)). kept hb a"
    and "group_only (set s) hw hb"
proof -
  note wf = working_fields_plain [OF assms(1) w]
  define groups where
    "groups = dedupe_groups (initial_groups (default_group_of dg hw s) (arrangeFields opts))"
  have g: "grouped_fields groups hw s = (hb, sb)"
    using b w by (simp add: before_ordering_def groups_def Let_def)
  have d: "distinct s" by (rule distinct_names_distinct [OF wf(1)])
  have ne: "groups \<noteq> []"
    unfolding groups_def by (rule dedupe_groups_nonempty [OF initial_groups_nonempty])
  have dn: "distinct (map gname groups)"
    unfolding groups_def by (rule dedupe_groups_distinct)
  let ?gn = "map gname groups"
  from grouped_fields_summary [OF d ne dn g] obtain X Y where
    sb: "sb = X @ Y" and sXY: "set (X @ Y) \<subseteq> set s"
    and sx: "sorted (map (\<lambda>a. pos ?gn (gk hb a)) X)"
    and ex: "\<forall>a\<in>set X. fgroup (hb a) \<noteq> None \<and> gk hb a \<in> set ?gn"
    and ey: "\<forall>y\<in>set Y. fgroup (hb y) = Some (strip (hd groups))"
    and go: "group_only (set s) hw hb"
    by blast
  have ex': "\<forall>a\<in>set X. gk hb a \<in> set ?gn" using ex by simp
  have ey': "\<forall>y\<in>set Y. gk hb y = gname (hd groups)"
    using ey by (simp add: gk_def group_name_def strip_def)
  have g0: "gname (hd groups) \<in> set ?gn" "pos ?gn (gname (hd groups)) = 0"
    using ne by (simp_all add: pos_map_hd)
  note os = ordering_summary [OF sx ex' ey' g0 refl]
  show "set (default_last hb (stabilize hb sb)) \<subseteq> set s"
    using os(1) sXY unfolding sb by auto
  show "\<forall>a\<in>set (default_last hb (stabilize hb sb)). kept hb a"
    using os(1) unfolding sb by auto
  show "group_only (set s) hw hb" by (rule go)
qed

lemma finish_fields_frame:
  assumes "finish_fields h xs = (h', r)" and "a \<notin> set xs"
  shows "h' a = h a"
  using assms
proof (induction xs arbitrary: h)
  case Nil
  then show ?case by simp
next
  case (Cons x xs)
  define h1 where "h1 = h(x := install_partial (h x))"
  from Cons.prems(2) have ax: "a \<noteq> x" "a \<notin> set xs" by simp_all
  show ?case
  proof (cases "select_ok (h1 x)")
    case True
    with Cons.prems(1) have "finish_fields h1 xs = (h', r)" by (simp add: h1_def Let_def)
    from Cons.IH [OF this ax(2)] ax(1) show ?thesis by (simp add: h1_def)
  next
    case False
    with Cons.prems(1) have "h' = h1" by (simp add: h1_def Let_def)
    with ax(1) show ?thesis by (simp add: h1_def)
  qed
qed

text \<open>
  With no \<open>alterFields\<close> function, \<open>compose\<close> writes only to the objects listed in
  \<open>addFields\<close>, whether it returns or throws.
\<close>

lemma compose_frame:
  assumes "alterFields opts = None" and c: "compose dg opts h = (h', r)"
    and a: "a \<notin> set (case addFields opts of None \<Rightarrow> [] | Some fs \<Rightarrow> fs)"
  shows "h' a = h a"
proof -
  obtain hw s where w: "working_fields opts h = (hw, s)"
    by (cases "working_fields opts h") auto
  obtain hb sb where b: "before_ordering dg opts h = (hb, sb)"
    by (cases "before_ordering dg opts h") auto
  note wf = working_fields_plain [OF assms(1) w]
  note bo = before_ordering_plain [OF assms(1) w b]
  let ?R = "default_last hb (stabilize hb sb)"
  from a wf(2) have ns: "a \<notin> set s" by (auto split: option.splits)
  with bo(1) have nR: "a \<notin> set ?R" by auto
  obtain h2 e where f: "finish_fields hb ?R = (h2, e)"
    by (cases "finish_fields hb ?R") auto
  from c b f have "h' = h2" by (cases e) (simp_all add: compose_def Let_def)
  with finish_fields_frame [OF f nR] have "h' a = hb a" by simp
  also from bo(3) ns have "hb a = hw a" by (simp add: group_only_def)
  also from ns have "hw a = h a" using wf(3) [of a] by simp
  finally show ?thesis .
qed



subsection \<open>\<open>refine\<close> works on copies\<close>

lemma cloneDeep_frame:
  assumes "cloneDeep fresh h schema = (h', copies)"
  shows "\<forall>c\<in>set copies. fresh \<le> c" and "a < fresh \<Longrightarrow> h' a = h a"
proof -
  from assms have c: "copies = map (clone_addr fresh schema) schema"
    and h': "h' = foldl (\<lambda>h' a. h'(clone_addr fresh schema a := h a)) h schema"
    by (simp_all add: cloneDeep_def)
  show "\<forall>c\<in>set copies. fresh \<le> c" by (auto simp: c clone_addr_def)
  have "foldl (\<lambda>h' a. h'(clone_addr fresh schema a := h a)) h0 xs a = h0 a"
    if "a < fresh" for h0 xs
    using that
  proof (induction xs arbitrary: h0)
    case Nil
    then show ?case by simp
  next
    case (Cons x xs)
    have "a \<noteq> clone_addr fresh schema x" using Cons.prems by (simp add: clone_addr_def)
    with Cons.IH [OF Cons.prems, of "h0(clone_addr fresh schema x := h x)"]
    show ?case by simp
  qed
  then show "a < fresh \<Longrightarrow> h' a = h a" by (simp add: h')
qed

text \<open>
  By contrast with \<open>compose\<close>, \<open>refine\<close> leaves the objects it is given as they are: an
  object that existed before the call is changed only if the caller also lists it in
  \<open>addFields\<close>.
\<close>

lemma refine_keeps_schema:
  assumes "alterFields opts = None" and r: "refine fresh dg schema opts h = Some (h', r)"
    and a: "a < fresh" "a \<notin> set (case addFields opts of None \<Rightarrow> [] | Some fs \<Rightarrow> fs)"
  shows "h' a = h a"
proof -
  obtain h1 copies where c: "cloneDeep fresh h schema = (h1, copies)"
    by (cases "cloneDeep fresh h schema") auto
  let ?adds = "copies @ (case addFields opts of None \<Rightarrow> [] | Some fs \<Rightarrow> fs)"
  from r c obtain arr where
    co: "compose dg (opts\<lparr>addFields := Some ?adds, arrangeFields := Some arr\<rparr>) h1 = (h', r)"
    by (auto simp: refine_def Let_def split: option.splits)
  note cf = cloneDeep_frame [OF c]
  from cf(1) a(1) have "a \<notin> set copies" by auto
  with a(2) have "a \<notin> set (case addFields (opts\<lparr>addFields := Some ?adds, arrangeFields := Some arr\<rparr>)
                              of None \<Rightarrow> [] | Some fs \<Rightarrow> fs)" by simp
  from compose_frame [OF _ co this] assms(1) have "h' a = h1 a" by simp
  with cf(2) [OF a(1)] show ?thesis by simp
qed

text \<open>
  For instance, \<open>refine\<close> of the schema \<open>title\<close>, \<open>body\<close> with \<open>addFields: [tags]\<close> returns the
  two copies followed by the caller's \<open>tags\<close>, all in the default group; \<open>title\<close> and
  \<open>body\<close> themselves have no group afterwards, while the caller's \<open>tags\<close> has one.
\<close>

lemma refine_composes_copies:
  "map_option (\<lambda>(h', r). (r, map (group_name h') [4, 5, 2], map (group_name h') [0, 1]))
     (refine 4 None [0, 1] (only_addFields [2]) example_heap)
   = Some (Inr [4, 5, 2],
           [Some ''default'', Some ''default'', Some ''default''], [None, None])"
  by (simp add: refine_def cloneDeep_def clone_addr_def oldArrangeFields_def old_arrange_step_def
      concat_arrange_def
      compose_def before_ordering_def only_addFields_def example_heap_def
      plain_field_def working_fields_def apply_addFields_def
      add_field_def apply_removeFields_def apply_requireFields_def apply_alterFields_def
      default_group_of_def initial_groups_def dedupe_groups_def regroup_def splice_in_def
      grouped_fields_def assign_group_def assign_field_def assign_leftover_def
      stabilize_def stabilize_step_def group_name_def strip_def default_last_def
      install_partial_def select_ok_def)

end
